theory Spec2Isabelle
  imports Main "HOL-Library.Word"
begin

unbundle bit_operations_syntax

section \<open>Python values\<close>

text \<open>
  A Python \<open>str\<close> is a sequence of Unicode code points; the model keeps each code point
  as a natural number, so that \<open>ord\<close> and \<open>chr\<close> are the identity and \<open>len\<close> counts what
  Python counts. \<open>py\<close> turns a literal of the theory into such a string.
\<close>

type_synonym pystr = "nat list"

definition py :: "string \<Rightarrow> pystr" where
  "py s = map of_char s"

text \<open>
  The strings of binary digits that the embedding codec builds for itself (with
  \<open>format(n, '08b')\<close> and \<open>str(pixel & 1)\<close>) only ever hold the characters \<open>'0'\<close> and
  \<open>'1'\<close>; they are kept as lists of booleans, \<open>True\<close> for \<open>'1'\<close>.
\<close>

type_synonym bitstr = "bool list"

text \<open>
  Exceptions are values. The constructors stand for the exceptions the program raises
  (or that the library raises on its behalf); the wrappers \<open>Exception(f"Error ...: {e}")\<close>
  keep the wrapped exception as their argument. \<open>KeyboardInterrupt\<close> is the one kind
  here that is not a subclass of \<open>Exception\<close>.
\<close>

datatype exn =
    MessageTooLarge nat nat
  | CannotOpenImage pystr
  | ReshapeSizeMismatch
  | IndexError
  | TypeError
  | InvalidLiteralForInt nat
  | ChrOutOfRange nat
  | ZeroDivisionError
  | ErrorHidingMessage exn
  | ErrorExtractingMessage exn
  | ErrorCalculatingCapacity exn
  | KeyMatrixNotValid
  | MatrixNotInvertible
  | ModularInverseDoesNotExist int int
  | KeyMustBeTenBitBinaryString
  | KeyMustBeTenBitsLong
  | HybridMessageTooLarge nat nat
  | NoHiddenMessageFound
  | KeyboardInterrupt

fun is_Exception :: "exn \<Rightarrow> bool" where
  "is_Exception KeyboardInterrupt = False"
| "is_Exception _ = True"

section \<open>Raster images\<close>

text \<open>
  \<open>np.array(img)\<close> for an RGB image is an array of bytes of shape (height, width, 3),
  stored contiguously in C order: the byte of row \<open>r\<close>, column \<open>c\<close>, channel \<open>k\<close> sits at
  offset \<open>(r * width + c) * channels + k\<close> of the buffer. \<open>flatten\<close> copies the buffer;
  \<open>reshape\<close> puts a shape on a buffer of the right size.
\<close>

type_synonym u8 = "8 word"

record ndarray =
  shape :: "nat \<times> nat \<times> nat"
  data :: "u8 list"

definition size_of_shape :: "nat \<times> nat \<times> nat \<Rightarrow> nat" where
  "size_of_shape s = (case s of (h, w, c) \<Rightarrow> h * w * c)"

definition nd_size :: "ndarray \<Rightarrow> nat" where
  "nd_size a = size_of_shape (shape a)"

definition wf_ndarray :: "ndarray \<Rightarrow> bool" where
  "wf_ndarray a \<longleftrightarrow> length (data a) = nd_size a"

definition flatten :: "ndarray \<Rightarrow> u8 list" where
  "flatten a = data a"

definition reshape :: "u8 list \<Rightarrow> nat \<times> nat \<times> nat \<Rightarrow> exn + ndarray" where
  "reshape xs s =
     (if length xs = size_of_shape s then Inr \<lparr>shape = s, data = xs\<rparr>
      else Inl ReshapeSizeMismatch)"

definition flat_index :: "ndarray \<Rightarrow> nat \<Rightarrow> nat \<Rightarrow> nat \<Rightarrow> nat" where
  "flat_index a r c k = (case shape a of (h, w, ch) \<Rightarrow> (r * w + c) * ch + k)"

definition item :: "ndarray \<Rightarrow> nat \<Rightarrow> nat \<Rightarrow> nat \<Rightarrow> u8" where
  "item a r c k = data a ! flat_index a r c k"

text \<open>
  An image file. \<open>rgb\<close> is the array \<open>np.array(Image.open(p).convert('RGB'))\<close>;
  \<open>bands\<close> is the number of channels of the mode the file is stored in (1 for a
  greyscale file, 3 for RGB, 4 for RGBA), so that \<open>np.array(Image.open(p)).size\<close>, taken
  without conversion, is height * width * bands. The file system maps a path to the
  image stored there; a path with no image cannot be opened.
\<close>

record image_file =
  bands :: nat
  rgb :: ndarray

type_synonym fs = "pystr \<rightharpoonup> image_file"

text \<open>
  The library functions the program calls and the repository does not contain:
  \<^item> \<open>np_det_round m\<close> is \<open>int(np.round(np.linalg.det(m)))\<close>, a floating-point
    determinant rounded to an integer;
  \<^item> \<open>str_isalpha c\<close> and \<open>str_upper c\<close> are \<open>c.isalpha()\<close> and \<open>c.upper()\<close> for a
    one-character string (the upper case of one character can be several);
  \<^item> \<open>str_int c\<close> is \<open>int(c)\<close> for a one-character string, \<open>None\<close> when it raises
    ValueError;
  \<^item> \<open>pil_thumbnail\<close> is the RGB array of an image after
    \<open>img.thumbnail((2000, 2000), LANCZOS)\<close>;
  \<^item> \<open>os_splitext p\<close> is \<open>os.path.splitext(p)[0]\<close>.
\<close>

datatype mat2 = Mat2 int int int int

record lib =
  np_det_round :: "mat2 \<Rightarrow> int"
  str_isalpha :: "nat \<Rightarrow> bool"
  str_upper :: "nat \<Rightarrow> pystr"
  str_int :: "nat \<Rightarrow> nat option"
  pil_thumbnail :: "ndarray \<Rightarrow> ndarray"
  os_splitext :: "pystr \<Rightarrow> pystr"

section \<open>steganography.py\<close>

definition delimiter :: pystr where
  "delimiter = py ''###END###''"

text \<open>\<open>format(n, 'b')\<close>: the binary digits of \<open>n\<close>, most significant first.\<close>

fun bin_digits :: "nat \<Rightarrow> bitstr" where
  "bin_digits n = (if n < 2 then [n = 1] else bin_digits (n div 2) @ [odd n])"

declare bin_digits.simps [simp del]

text \<open>\<open>format(n, '08b')\<close>: zero-padded on the left to at least 8 digits.\<close>

definition format_08b :: "nat \<Rightarrow> bitstr" where
  "format_08b n = (let d = bin_digits n in replicate (8 - length d) False @ d)"

definition string_to_binary :: "pystr \<Rightarrow> bitstr" where
  "string_to_binary text = concat (map format_08b text)"

text \<open>\<open>int(byte, 2)\<close>.\<close>

definition int_base2 :: "bitstr \<Rightarrow> nat" where
  "int_base2 bs = foldl (\<lambda>acc b. 2 * acc + (if b then 1 else 0)) 0 bs"

function binary_to_string :: "bitstr \<Rightarrow> pystr" where
  "binary_to_string binary =
     (if binary = [] then []
      else (let byte = take 8 binary
            in (if length byte = 8 then [int_base2 byte] else []))
           @ binary_to_string (drop 8 binary))"
  by pat_completeness auto
termination
  by (relation "measure length") auto

declare binary_to_string.simps [simp del]

definition modify_lsb :: "u8 \<Rightarrow> bool \<Rightarrow> u8" where
  "modify_lsb pixel_value b = (pixel_value AND 0xFE) OR (if b then 1 else 0)"

definition get_lsb :: "u8 \<Rightarrow> u8" where
  "get_lsb pixel_value = pixel_value AND 1"

text \<open>\<open>str(self.get_lsb(pixel_value))\<close> as a binary digit.\<close>

definition lsb_digit :: "u8 \<Rightarrow> bool" where
  "lsb_digit pixel_value = (get_lsb pixel_value \<noteq> 0)"

text \<open>
  The image as \<open>hide_message\<close> loads it: opened, downsampled when wider or higher than
  2000, converted to RGB.
\<close>

definition load_cover :: "lib \<Rightarrow> image_file \<Rightarrow> ndarray" where
  "load_cover L f =
     (case shape (rgb f) of (h, w, c) \<Rightarrow>
        if w > 2000 \<or> h > 2000 then pil_thumbnail L (rgb f) else rgb f)"

text \<open>
  The loop \<open>for i, bit in enumerate(binary_message): flat_pixels[i] = ...\<close>; a write past
  the end of the buffer raises IndexError.
\<close>

fun hide_loop :: "nat \<Rightarrow> bitstr \<Rightarrow> u8 list \<Rightarrow> exn + u8 list" where
  "hide_loop i [] flat_pixels = Inr flat_pixels"
| "hide_loop i (b # bs) flat_pixels =
     (if i < length flat_pixels
      then hide_loop (Suc i) bs (flat_pixels[i := modify_lsb (flat_pixels ! i) b])
      else Inl IndexError)"

text \<open>
  \<open>hide_message\<close> returns the file system after the call together with what the call
  returned or raised. Every exception of the body is re-raised wrapped.
\<close>

definition hide_message_body ::
  "lib \<Rightarrow> fs \<Rightarrow> pystr \<Rightarrow> pystr \<Rightarrow> pystr option \<Rightarrow> fs \<times> (exn + pystr \<times> nat)" where
  "hide_message_body L files image_path message output_path =
     (case files image_path of
        None \<Rightarrow> (files, Inl (CannotOpenImage image_path))
      | Some f \<Rightarrow>
          let pixels = load_cover L f;
              message_with_delimiter = message @ delimiter;
              binary_message = string_to_binary message_with_delimiter;
              max_capacity = nd_size pixels
          in if length binary_message > max_capacity
             then (files, Inl (MessageTooLarge max_capacity (length binary_message)))
             else
               (case hide_loop 0 binary_message (flatten pixels) of
                  Inl e \<Rightarrow> (files, Inl e)
                | Inr flat_pixels \<Rightarrow>
                    (case reshape flat_pixels (shape pixels) of
                       Inl e \<Rightarrow> (files, Inl e)
                     | Inr modified_pixels \<Rightarrow>
                         let out = (case output_path of
                                      None \<Rightarrow> os_splitext L image_path @ py ''_stego.png''
                                    | Some p \<Rightarrow> p)
                         in (files(out \<mapsto> \<lparr>bands = 3, rgb = modified_pixels\<rparr>),
                             Inr (out, length binary_message)))))"

definition hide_message ::
  "lib \<Rightarrow> fs \<Rightarrow> pystr \<Rightarrow> pystr \<Rightarrow> pystr option \<Rightarrow> fs \<times> (exn + pystr \<times> nat)" where
  "hide_message L files image_path message output_path =
     (case hide_message_body L files image_path message output_path of
        (files', Inl e) \<Rightarrow>
          (files', if is_Exception e then Inl (ErrorHidingMessage e) else Inl e)
      | (files', Inr r) \<Rightarrow> (files', Inr r))"

text \<open>\<open>s.endswith(suffix)\<close>.\<close>

definition endswith :: "bitstr \<Rightarrow> bitstr \<Rightarrow> bool" where
  "endswith s suf \<longleftrightarrow> length suf \<le> length s \<and> drop (length s - length suf) s = suf"

text \<open>
  The loop of \<open>extract_message\<close> over the flattened bytes, with the buffer
  \<open>binary_message\<close> as accumulator: the test runs after each appended digit; on a match
  the delimiter is cut off and the loop is left.
\<close>

fun extract_loop :: "bitstr \<Rightarrow> bitstr \<Rightarrow> u8 list \<Rightarrow> bitstr" where
  "extract_loop delimiter_binary binary_message [] = binary_message"
| "extract_loop delimiter_binary binary_message (pixel_value # rest) =
     (let binary_message' = binary_message @ [lsb_digit pixel_value]
      in if endswith binary_message' delimiter_binary
         then take (length binary_message' - length delimiter_binary) binary_message'
         else extract_loop delimiter_binary binary_message' rest)"

definition extract_pixels :: "u8 list \<Rightarrow> pystr" where
  "extract_pixels flat_pixels =
     (let delimiter_binary = string_to_binary delimiter;
          binary_message = extract_loop delimiter_binary [] flat_pixels
      in if binary_message \<noteq> [] then binary_to_string binary_message else [])"

definition extract_message :: "fs \<Rightarrow> pystr \<Rightarrow> exn + pystr" where
  "extract_message files image_path =
     (case files image_path of
        None \<Rightarrow> Inl (ErrorExtractingMessage (CannotOpenImage image_path))
      | Some f \<Rightarrow> Inr (extract_pixels (flatten (rgb f))))"

section \<open>sdes.py\<close>

text \<open>
  A bit is the Python integer the program computes with. The engine's own lists hold
  only 0 and 1, but a list or a key that a caller passes in, or the digits of a string
  given to \<open>decrypt_text\<close>, can hold larger numbers; then a substitution-box index can
  fall outside the box and the lookup raises IndexError.
\<close>

definition P10 :: "nat list" where "P10 = [3, 5, 2, 7, 4, 10, 1, 9, 8, 6]"
definition P8 :: "nat list" where "P8 = [6, 3, 7, 4, 8, 5, 10, 9]"
definition IP :: "nat list" where "IP = [2, 6, 3, 1, 4, 8, 5, 7]"
definition IP_INV :: "nat list" where "IP_INV = [4, 1, 3, 5, 7, 2, 8, 6]"
definition EP :: "nat list" where "EP = [4, 1, 2, 3, 2, 3, 4, 1]"
definition P4 :: "nat list" where "P4 = [2, 4, 3, 1]"

definition S0 :: "nat list list" where
  "S0 = [[1, 0, 3, 2], [3, 2, 1, 0], [0, 2, 1, 3], [3, 1, 3, 2]]"

definition S1 :: "nat list list" where
  "S1 = [[0, 1, 2, 3], [2, 0, 1, 3], [3, 0, 1, 0], [2, 1, 0, 3]]"

text \<open>
  \<open>[bits[i-1] for i in table]\<close>. Every call in the program passes a list at least as
  long as the largest entry of its table (ten key bits to P10 and P8, eight bits to IP,
  IP_INV, four to EP and P4), so the read is always in range.
\<close>

definition permute :: "nat list \<Rightarrow> nat list \<Rightarrow> nat list" where
  "permute bits table = map (\<lambda>i. bits ! (i - 1)) table"

definition left_shift :: "nat list \<Rightarrow> nat \<Rightarrow> nat list" where
  "left_shift bits shifts = drop shifts bits @ take shifts bits"

definition xor_bits :: "nat list \<Rightarrow> nat list \<Rightarrow> nat list" where
  "xor_bits bits1 bits2 = map (\<lambda>(b1, b2). b1 XOR b2) (zip bits1 bits2)"

definition int_to_bits :: "nat \<Rightarrow> nat \<Rightarrow> nat list" where
  "int_to_bits num len = map (\<lambda>i. drop_bit i num AND 1) (rev [0..<len])"

definition string_to_bits :: "pystr \<Rightarrow> nat list" where
  "string_to_bits text = concat (map (\<lambda>ascii_val. int_to_bits ascii_val 8) text)"

text \<open>
  \<open>bits_to_string\<close>: each complete group of 8 gives \<open>chr(sum of bit * 2 ** (7 - j))\<close>;
  \<open>chr\<close> raises ValueError from 0x110000 on. A shorter last group is skipped.
\<close>

definition byte_value :: "nat list \<Rightarrow> nat" where
  "byte_value byte = foldl (\<lambda>ascii_val (j, b). ascii_val + b * 2 ^ (7 - j)) 0 (enumerate 0 byte)"

function bits_to_string :: "nat list \<Rightarrow> exn + pystr" where
  "bits_to_string bits =
     (if bits = [] then Inr []
      else let byte = take 8 bits
           in if length byte = 8
              then (if byte_value byte < 0x110000
                    then (case bits_to_string (drop 8 bits) of
                            Inl e \<Rightarrow> Inl e
                          | Inr rest \<Rightarrow> Inr (byte_value byte # rest))
                    else Inl (ChrOutOfRange (byte_value byte)))
              else bits_to_string (drop 8 bits))"
  by pat_completeness auto
termination
  by (relation "measure length") auto

declare bits_to_string.simps [simp del]

datatype sdes_key = KeyStr pystr | KeyList "nat list"

definition key_schedule :: "nat list \<Rightarrow> nat list \<times> nat list" where
  "key_schedule key_bits =
     (let p10_key = permute key_bits P10;
          left_half = take 5 p10_key;
          right_half = drop 5 p10_key;
          left_k1 = left_shift left_half 1;
          right_k1 = left_shift right_half 1;
          k1 = permute (left_k1 @ right_k1) P8;
          left_k2 = left_shift left_k1 2;
          right_k2 = left_shift right_k1 2;
          k2 = permute (left_k2 @ right_k2) P8
      in (k1, k2))"

definition generate_keys :: "sdes_key \<Rightarrow> exn + nat list \<times> nat list" where
  "generate_keys key =
     (case key of
        KeyStr s \<Rightarrow>
          if length s \<noteq> 10 \<or> \<not> list_all (\<lambda>c. c = 48 \<or> c = 49) s
          then Inl KeyMustBeTenBitBinaryString
          else Inr (key_schedule (map (\<lambda>c. c - 48) s))
      | KeyList l \<Rightarrow>
          if length l \<noteq> 10 then Inl KeyMustBeTenBitsLong
          else Inr (key_schedule l))"

definition sbox_lookup :: "nat list list \<Rightarrow> nat \<Rightarrow> nat \<Rightarrow> exn + nat" where
  "sbox_lookup box row col =
     (if row < 4 \<and> col < 4 then Inr (box ! row ! col) else Inl IndexError)"

definition sbox_substitution :: "nat list \<Rightarrow> exn + nat list" where
  "sbox_substitution bits =
     (let left_4 = take 4 bits;
          right_4 = drop 4 bits;
          row0 = push_bit 1 (left_4 ! 0) OR (left_4 ! 3);
          col0 = push_bit 1 (left_4 ! 1) OR (left_4 ! 2)
      in case sbox_lookup S0 row0 col0 of
           Inl e \<Rightarrow> Inl e
         | Inr s0_output \<Rightarrow>
             let s0_bits = int_to_bits s0_output 2;
                 row1 = push_bit 1 (right_4 ! 0) OR (right_4 ! 3);
                 col1 = push_bit 1 (right_4 ! 1) OR (right_4 ! 2)
             in case sbox_lookup S1 row1 col1 of
                  Inl e \<Rightarrow> Inl e
                | Inr s1_output \<Rightarrow> Inr (s0_bits @ int_to_bits s1_output 2))"

definition f_function :: "nat list \<Rightarrow> nat list \<Rightarrow> exn + nat list" where
  "f_function right_half subkey =
     (let expanded = permute right_half EP;
          xor_result = xor_bits expanded subkey
      in case sbox_substitution xor_result of
           Inl e \<Rightarrow> Inl e
         | Inr sbox_result \<Rightarrow> Inr (permute sbox_result P4))"

definition encrypt_block :: "nat list \<Rightarrow> nat list \<Rightarrow> nat list \<Rightarrow> exn + nat list" where
  "encrypt_block plaintext_bits k1 k2 =
     (let ip_result = permute plaintext_bits IP;
          left = take 4 ip_result;
          right = drop 4 ip_result
      in case f_function right k1 of
           Inl e \<Rightarrow> Inl e
         | Inr f_result \<Rightarrow>
             let new_left = xor_bits left f_result;
                 left' = right;
                 right' = new_left
             in case f_function right' k2 of
                  Inl e \<Rightarrow> Inl e
                | Inr f_result' \<Rightarrow>
                    let new_left' = xor_bits left' f_result';
                        combined = new_left' @ right'
                    in Inr (permute combined IP_INV))"

definition decrypt_block :: "nat list \<Rightarrow> nat list \<Rightarrow> nat list \<Rightarrow> exn + nat list" where
  "decrypt_block ciphertext_bits k1 k2 = encrypt_block ciphertext_bits k2 k1"

text \<open>The loop \<open>while len(plaintext_bits) % 8 != 0: plaintext_bits.append(0)\<close>.\<close>

function pad_bits :: "nat list \<Rightarrow> nat list" where
  "pad_bits plaintext_bits =
     (if length plaintext_bits mod 8 \<noteq> 0 then pad_bits (plaintext_bits @ [0])
      else plaintext_bits)"
  by pat_completeness auto
termination
proof (relation "measure (\<lambda>bs. (8 - length bs mod 8) mod 8)")
  show "wf (measure (\<lambda>bs::nat list. (8 - length bs mod 8) mod 8))" by simp
next
  fix plaintext_bits :: "nat list"
  assume a: "length plaintext_bits mod 8 \<noteq> 0"
  have b: "length plaintext_bits mod 8 < 8" by simp
  have "(8 - Suc (length plaintext_bits) mod 8) mod 8 < (8 - length plaintext_bits mod 8) mod 8"
  proof (cases "Suc (length plaintext_bits mod 8) = 8")
    case True
    with a show ?thesis by (simp add: mod_Suc)
  next
    case False
    with a b have "Suc (length plaintext_bits) mod 8 = Suc (length plaintext_bits mod 8)"
      by (simp add: mod_Suc)
    moreover from False b have "Suc (length plaintext_bits mod 8) < 8" by linarith
    ultimately show ?thesis using a by simp
  qed
  then show "(plaintext_bits @ [0], plaintext_bits)
              \<in> measure (\<lambda>bs. (8 - length bs mod 8) mod 8)"
    by simp
qed

declare pad_bits.simps [simp del]

function encrypt_blocks :: "nat list \<Rightarrow> nat list \<Rightarrow> nat list \<Rightarrow> exn + nat list" where
  "encrypt_blocks k1 k2 plaintext_bits =
     (if plaintext_bits = [] then Inr []
      else case encrypt_block (take 8 plaintext_bits) k1 k2 of
             Inl e \<Rightarrow> Inl e
           | Inr encrypted_block \<Rightarrow>
               (case encrypt_blocks k1 k2 (drop 8 plaintext_bits) of
                  Inl e \<Rightarrow> Inl e
                | Inr rest \<Rightarrow> Inr (encrypted_block @ rest)))"
  by pat_completeness auto
termination
  by (relation "measure (\<lambda>(k1, k2, bs). length bs)") auto

declare encrypt_blocks.simps [simp del]

function decrypt_blocks :: "nat list \<Rightarrow> nat list \<Rightarrow> nat list \<Rightarrow> exn + nat list" where
  "decrypt_blocks k1 k2 ciphertext_bits =
     (if ciphertext_bits = [] then Inr []
      else let block = take 8 ciphertext_bits
           in if length block = 8
              then (case decrypt_block block k1 k2 of
                      Inl e \<Rightarrow> Inl e
                    | Inr decrypted_block \<Rightarrow>
                        (case decrypt_blocks k1 k2 (drop 8 ciphertext_bits) of
                           Inl e \<Rightarrow> Inl e
                         | Inr rest \<Rightarrow> Inr (decrypted_block @ rest)))
              else decrypt_blocks k1 k2 (drop 8 ciphertext_bits))"
  by pat_completeness auto
termination
  by (relation "measure (\<lambda>(k1, k2, bs). length bs)") auto

declare decrypt_blocks.simps [simp del]

definition sdes_encrypt :: "pystr \<Rightarrow> sdes_key \<Rightarrow> exn + nat list" where
  "sdes_encrypt plaintext key =
     (case generate_keys key of
        Inl e \<Rightarrow> Inl e
      | Inr (k1, k2) \<Rightarrow> encrypt_blocks k1 k2 (pad_bits (string_to_bits plaintext)))"

definition sdes_decrypt :: "nat list \<Rightarrow> sdes_key \<Rightarrow> exn + nat list" where
  "sdes_decrypt ciphertext_bits key =
     (case generate_keys key of
        Inl e \<Rightarrow> Inl e
      | Inr (k1, k2) \<Rightarrow> decrypt_blocks k1 k2 ciphertext_bits)"

text \<open>\<open>str(n)\<close> for a non-negative integer: its decimal digits.\<close>

fun str_nat :: "nat \<Rightarrow> pystr" where
  "str_nat n = (if n < 10 then [48 + n] else str_nat (n div 10) @ [48 + n mod 10])"

declare str_nat.simps [simp del]

definition encrypt_text :: "pystr \<Rightarrow> sdes_key \<Rightarrow> exn + pystr" where
  "encrypt_text plaintext key =
     (case sdes_encrypt plaintext key of
        Inl e \<Rightarrow> Inl e
      | Inr encrypted_bits \<Rightarrow> Inr (concat (map str_nat encrypted_bits)))"

text \<open>
  \<open>decrypt_text\<close> takes a string of digits or a list of bits; for a string it first
  computes \<open>[int(c) for c in ciphertext_binary]\<close>, which raises at the first character
  that \<open>int\<close> rejects.
\<close>

datatype binary_input = BinStr pystr | BinList "nat list"

fun ints_of_str :: "lib \<Rightarrow> pystr \<Rightarrow> exn + nat list" where
  "ints_of_str L [] = Inr []"
| "ints_of_str L (c # cs) =
     (case str_int L c of
        None \<Rightarrow> Inl (InvalidLiteralForInt c)
      | Some d \<Rightarrow> (case ints_of_str L cs of Inl e \<Rightarrow> Inl e | Inr ds \<Rightarrow> Inr (d # ds)))"

definition decrypt_text :: "lib \<Rightarrow> binary_input \<Rightarrow> sdes_key \<Rightarrow> exn + pystr" where
  "decrypt_text L ciphertext_binary key =
     (case (case ciphertext_binary of BinStr s \<Rightarrow> ints_of_str L s | BinList l \<Rightarrow> Inr l) of
        Inl e \<Rightarrow> Inl e
      | Inr ciphertext_bits \<Rightarrow>
          (case sdes_decrypt ciphertext_bits key of
             Inl e \<Rightarrow> Inl e
           | Inr decrypted_bits \<Rightarrow> bits_to_string decrypted_bits))"

section \<open>hill_cipher.py\<close>

text \<open>
  The key is a 2x2 integer matrix \<open>Mat2 a b c d\<close> with rows \<open>(a, b)\<close> and \<open>(c, d)\<close>. Its
  entries and the products formed from them are mathematical integers here; NumPy keeps
  them in 64 bits, which the entries of a key, all in [0, 26), never exhaust.
\<close>

definition char_to_num :: "lib \<Rightarrow> nat \<Rightarrow> exn + int" where
  "char_to_num L char =
     (case str_upper L char of [u] \<Rightarrow> Inr (int u - 65) | _ \<Rightarrow> Inl TypeError)"

definition num_to_char :: "int \<Rightarrow> nat" where
  "num_to_char num = nat (num mod 26 + 65)"

text \<open>\<open>''.join([char.upper() for char in text if char.isalpha()])\<close>.\<close>

definition cleaned_letters :: "lib \<Rightarrow> pystr \<Rightarrow> pystr" where
  "cleaned_letters L text = concat (map (str_upper L) (filter (str_isalpha L) text))"

definition prepare_text :: "lib \<Rightarrow> pystr \<Rightarrow> pystr" where
  "prepare_text L text =
     (let cleaned = cleaned_letters L text
      in if length cleaned mod 2 = 1 then cleaned @ [88] else cleaned)"

function extended_gcd :: "int \<Rightarrow> int \<Rightarrow> int \<times> int \<times> int" where
  "extended_gcd a b =
     (if a = 0 then (b, 0, 1)
      else (case extended_gcd (b mod a) a of
              (gcd_val, x1, y1) \<Rightarrow> (gcd_val, y1 - (b div a) * x1, x1)))"
  by pat_completeness auto
termination
  by (relation "measure (\<lambda>(a, b). nat \<bar>a\<bar>)") (auto simp: abs_mod_less)

declare extended_gcd.simps [simp del]

definition mod_inverse :: "int \<Rightarrow> int \<Rightarrow> exn + int" where
  "mod_inverse a m =
     (if gcd a m \<noteq> 1 then Inl (ModularInverseDoesNotExist a m)
      else if m = 0 then Inl ZeroDivisionError
      else (case extended_gcd (a mod m) m of (g, x, y) \<Rightarrow> Inr ((x mod m + m) mod m)))"

definition matrix_mod_inverse :: "lib \<Rightarrow> mat2 \<Rightarrow> int \<Rightarrow> exn + mat2" where
  "matrix_mod_inverse L matrix m =
     (if m = 0 then Inl ZeroDivisionError
      else let det = np_det_round L matrix mod m
           in if gcd det m \<noteq> 1 then Inl MatrixNotInvertible
              else (case mod_inverse det m of
                      Inl e \<Rightarrow> Inl e
                    | Inr det_inv \<Rightarrow>
                        (case matrix of Mat2 a b c d \<Rightarrow>
                           Inr (Mat2 ((det_inv * d) mod m) ((det_inv * (- b)) mod m)
                                     ((det_inv * (- c)) mod m) ((det_inv * a) mod m)))))"

definition validate_key_matrix :: "lib \<Rightarrow> mat2 \<Rightarrow> bool" where
  "validate_key_matrix L key_matrix =
     (let det = np_det_round L key_matrix mod 26
      in if gcd det 26 \<noteq> 1 then False else True)"

text \<open>
  One pass of the block loop, which \<open>encrypt\<close> and \<open>decrypt\<close> both contain: two
  characters to a column vector, the matrix product mod 26, back to two characters.
\<close>

definition hill_block :: "lib \<Rightarrow> mat2 \<Rightarrow> nat \<Rightarrow> nat \<Rightarrow> exn + pystr" where
  "hill_block L M c0 c1 =
     (case char_to_num L c0 of
        Inl e \<Rightarrow> Inl e
      | Inr v0 \<Rightarrow>
          (case char_to_num L c1 of
             Inl e \<Rightarrow> Inl e
           | Inr v1 \<Rightarrow>
               (case M of Mat2 a b c d \<Rightarrow>
                  Inr [num_to_char ((a * v0 + b * v1) mod 26),
                       num_to_char ((c * v0 + d * v1) mod 26)])))"

fun hill_blocks :: "lib \<Rightarrow> mat2 \<Rightarrow> pystr \<Rightarrow> exn + pystr" where
  "hill_blocks L M [] = Inr []"
| "hill_blocks L M [c0] = hill_block L M c0 88"
| "hill_blocks L M (c0 # c1 # rest) =
     (case hill_block L M c0 c1 of
        Inl e \<Rightarrow> Inl e
      | Inr out \<Rightarrow>
          (case hill_blocks L M rest of Inl e \<Rightarrow> Inl e | Inr r \<Rightarrow> Inr (out @ r)))"

definition hill_encrypt :: "lib \<Rightarrow> pystr \<Rightarrow> mat2 \<Rightarrow> exn + pystr" where
  "hill_encrypt L plaintext key_matrix =
     (if \<not> validate_key_matrix L key_matrix then Inl KeyMatrixNotValid
      else let cleaned_text = prepare_text L plaintext
           in if length cleaned_text = 0 then Inr []
              else hill_blocks L key_matrix cleaned_text)"

definition hill_decrypt :: "lib \<Rightarrow> pystr \<Rightarrow> mat2 \<Rightarrow> exn + pystr" where
  "hill_decrypt L ciphertext key_matrix =
     (if \<not> validate_key_matrix L key_matrix then Inl KeyMatrixNotValid
      else (case matrix_mod_inverse L key_matrix 26 of
              Inl e \<Rightarrow> Inl e
            | Inr inv_key_matrix \<Rightarrow>
                let cleaned_text = prepare_text L ciphertext
                in if length cleaned_text = 0 then Inr []
                   else hill_blocks L inv_key_matrix cleaned_text))"

section \<open>hybrid_model.py\<close>

definition get_image_capacity :: "fs \<Rightarrow> pystr \<Rightarrow> exn + int \<times> nat" where
  "get_image_capacity files image_path =
     (case files image_path of
        None \<Rightarrow> Inl (ErrorCalculatingCapacity (CannotOpenImage image_path))
      | Some f \<Rightarrow>
          let total_bits = (case shape (rgb f) of (h, w, c) \<Rightarrow> h * w * bands f);
              delimiter_bits = length (string_to_binary delimiter);
              available_bits = int total_bits - int delimiter_bits;
              max_characters = available_bits div 8
          in Inr (max_characters, total_bits))"

text \<open>
  \<open>create_sample_image\<close> writes a gradient of the given size. \<open>int(255 * x / width)\<close>
  is the integer quotient: the operands are small non-negative integers.
\<close>

definition sample_pixels :: "nat \<Rightarrow> nat \<Rightarrow> u8 list" where
  "sample_pixels width height =
     concat (map (\<lambda>y. concat (map (\<lambda>x. [of_nat (255 * x div width),
                                          of_nat (255 * y div height),
                                          of_nat (255 * (x + y) div (width + height))])
                                  [0..<width]))
                 [0..<height])"

definition create_sample_image :: "fs \<Rightarrow> nat \<Rightarrow> nat \<Rightarrow> pystr \<Rightarrow> fs \<times> pystr" where
  "create_sample_image files width height output_path =
     (files(output_path \<mapsto>
        \<lparr>bands = 3, rgb = \<lparr>shape = (height, width, 3), data = sample_pixels width height\<rparr>\<rparr>),
      output_path)"

text \<open>
  The outcome the orchestrator returns: \<open>Success r\<close> is the dictionary with
  \<open>'success': True\<close> and the fields of \<open>r\<close>; \<open>Failure e\<close> is
  \<open>{'success': False, 'error': str(e)}\<close>.
\<close>

datatype 'a outcome = Success 'a | Failure exn

record encrypt_result =
  encrypted_image_path :: pystr
  original_text :: pystr
  hill_encrypted :: pystr
  sdes_encrypted_binary :: pystr
  keys :: "mat2 \<times> sdes_key"
  cover_image :: pystr
  hidden_bits :: nat
  image_capacity :: nat

record decrypt_result =
  decrypted_text :: pystr
  extracted_binary :: pystr
  sdes_decrypted :: pystr

text \<open>
  The body of the \<open>try\<close> block of \<open>hybrid_encrypt\<close>. \<open>generated\<close> is the pair of keys
  that \<open>self.generate_keys()\<close> returns in this call; it is consulted only for a key the
  caller left out.
\<close>

definition hybrid_encrypt_body ::
  "lib \<Rightarrow> mat2 \<times> pystr \<Rightarrow> fs \<Rightarrow> pystr \<Rightarrow> mat2 option \<Rightarrow> sdes_key option \<Rightarrow> pystr option
     \<Rightarrow> pystr option \<Rightarrow> fs \<times> (exn + encrypt_result)" where
  "hybrid_encrypt_body L generated files plaintext hill_key sdes_key image_path output_image_path =
     (let hill_key' = (case hill_key of None \<Rightarrow> fst generated | Some k \<Rightarrow> k);
          sdes_key' = (case sdes_key of None \<Rightarrow> KeyStr (snd generated) | Some k \<Rightarrow> k)
      in case hill_encrypt L plaintext hill_key' of
           Inl e \<Rightarrow> (files, Inl e)
         | Inr hill_enc \<Rightarrow>
             (case encrypt_text hill_enc sdes_key' of
                Inl e \<Rightarrow> (files, Inl e)
              | Inr sdes_bin \<Rightarrow>
                  (case (case image_path of
                           None \<Rightarrow> create_sample_image files 1000 800 (py ''temp_cover_image.png'')
                         | Some p \<Rightarrow> (files, p)) of
                     (files1, image_path') \<Rightarrow>
                       (case get_image_capacity files1 image_path' of
                          Inl e \<Rightarrow> (files1, Inl e)
                        | Inr (max_chars, total_bits) \<Rightarrow>
                            if length sdes_bin > total_bits
                            then (files1, Inl (HybridMessageTooLarge (length sdes_bin) total_bits))
                            else
                              let out = (case output_image_path of
                                           None \<Rightarrow> os_splitext L image_path'
                                                     @ py ''_hybrid_encrypted.png''
                                         | Some p \<Rightarrow> p)
                              in (case hide_message L files1 image_path' sdes_bin (Some out) of
                                    (files2, Inl e) \<Rightarrow> (files2, Inl e)
                                  | (files2, Inr (stego_image_path, bits_hidden)) \<Rightarrow>
                                      (files2,
                                       Inr \<lparr>encrypted_image_path = stego_image_path,
                                            original_text = plaintext,
                                            hill_encrypted = hill_enc,
                                            sdes_encrypted_binary = sdes_bin,
                                            keys = (hill_key', sdes_key'),
                                            cover_image = image_path',
                                            hidden_bits = bits_hidden,
                                            image_capacity = total_bits\<rparr>))))))"

text \<open>\<open>try: ... except Exception as e: return {'success': False, 'error': str(e)}\<close>.\<close>

definition hybrid_encrypt ::
  "lib \<Rightarrow> mat2 \<times> pystr \<Rightarrow> fs \<Rightarrow> pystr \<Rightarrow> mat2 option \<Rightarrow> sdes_key option \<Rightarrow> pystr option
     \<Rightarrow> pystr option \<Rightarrow> fs \<times> (exn + encrypt_result outcome)" where
  "hybrid_encrypt L generated files plaintext hill_key sdes_key image_path output_image_path =
     (case hybrid_encrypt_body L generated files plaintext hill_key sdes_key image_path
             output_image_path of
        (files', Inl e) \<Rightarrow> (files', if is_Exception e then Inr (Failure e) else Inl e)
      | (files', Inr r) \<Rightarrow> (files', Inr (Success r)))"

definition hybrid_decrypt_body ::
  "lib \<Rightarrow> fs \<Rightarrow> pystr \<Rightarrow> mat2 \<Rightarrow> sdes_key \<Rightarrow> exn + decrypt_result" where
  "hybrid_decrypt_body L files image_path hill_key sdes_key =
     (case extract_message files image_path of
        Inl e \<Rightarrow> Inl e
      | Inr sdes_bin \<Rightarrow>
          if sdes_bin = [] then Inl NoHiddenMessageFound
          else (case decrypt_text L (BinStr sdes_bin) sdes_key of
                  Inl e \<Rightarrow> Inl e
                | Inr hill_enc \<Rightarrow>
                    (case hill_decrypt L hill_enc hill_key of
                       Inl e \<Rightarrow> Inl e
                     | Inr text \<Rightarrow>
                         Inr \<lparr>decrypted_text = text, extracted_binary = sdes_bin,
                              sdes_decrypted = hill_enc\<rparr>)))"

definition hybrid_decrypt ::
  "lib \<Rightarrow> fs \<Rightarrow> pystr \<Rightarrow> mat2 \<Rightarrow> sdes_key \<Rightarrow> exn + decrypt_result outcome" where
  "hybrid_decrypt L files image_path hill_key sdes_key =
     (case hybrid_decrypt_body L files image_path hill_key sdes_key of
        Inl e \<Rightarrow> (if is_Exception e then Inr (Failure e) else Inl e)
      | Inr r \<Rightarrow> Inr (Success r))"

section \<open>The specification's reading of extraction\<close>

text \<open>
  The specification describes extraction as testing for the delimiter "after every
  completed byte", and as returning an empty result when the delimiter is never found.
  \<open>extract_spec\<close> follows those words; it is compared with \<open>extract_pixels\<close> below.
\<close>

fun extract_loop_spec :: "bitstr \<Rightarrow> bitstr \<Rightarrow> u8 list \<Rightarrow> bitstr option" where
  "extract_loop_spec d buf [] = None"
| "extract_loop_spec d buf (p # rest) =
     (let buf' = buf @ [lsb_digit p]
      in if length buf' mod 8 = 0 \<and> endswith buf' d
         then Some (take (length buf' - length d) buf')
         else extract_loop_spec d buf' rest)"

definition extract_spec :: "u8 list \<Rightarrow> pystr" where
  "extract_spec px =
     (case extract_loop_spec (string_to_binary delimiter) [] px of
        None \<Rightarrow> []
      | Some bs \<Rightarrow> binary_to_string bs)"

section \<open>Conditions and example data\<close>

text \<open>
  No proper prefix of the bit string ends with the delimiter's bit pattern: the first
  place where the pattern is complete, at any bit offset, is the end of the string.
\<close>

definition no_early_delimiter :: "bitstr \<Rightarrow> bool" where
  "no_early_delimiter bs =
     list_all (\<lambda>n. \<not> endswith (take n bs) (string_to_binary delimiter)) [0..<length bs]"

text \<open>The delimiter's bit pattern is complete nowhere in the first \<open>n\<close> bits.\<close>

definition delimiter_absent :: "bitstr \<Rightarrow> bool" where
  "delimiter_absent bs =
     list_all (\<lambda>n. \<not> endswith (take n bs) (string_to_binary delimiter)) [0..<Suc (length bs)]"

text \<open>
  A list of bits, and a key the block cipher accepts: ten binary digits, as a string or
  as a list.
\<close>

definition is_bits :: "nat list \<Rightarrow> bool" where
  "is_bits bs = list_all (\<lambda>b. b = 0 \<or> b = 1) bs"

definition valid_key :: "sdes_key \<Rightarrow> bool" where
  "valid_key key =
     (case key of
        KeyStr s \<Rightarrow> length s = 10 \<and> list_all (\<lambda>c. c = 48 \<or> c = 49) s
      | KeyList l \<Rightarrow> length l = 10 \<and> is_bits l)"

definition example_key :: sdes_key where
  "example_key = KeyStr (py ''1010000010'')"

text \<open>Facts about the library that the theorems below rely on.\<close>

definition ascii_capitals :: "lib \<Rightarrow> bool" where
  "ascii_capitals L \<longleftrightarrow> (\<forall>c. 65 \<le> c \<and> c \<le> 90 \<longrightarrow> str_isalpha L c \<and> str_upper L c = [c])"

definition binary_digits :: "lib \<Rightarrow> bool" where
  "binary_digits L \<longleftrightarrow> str_int L 48 = Some 0 \<and> str_int L 49 = Some 1"

definition det2 :: "mat2 \<Rightarrow> int" where
  "det2 m = (case m of Mat2 a b c d \<Rightarrow> a * d - b * c)"

definition det_exact :: "lib \<Rightarrow> mat2 \<Rightarrow> bool" where
  "det_exact L m \<longleftrightarrow> np_det_round L m = det2 m"

definition key_in_range :: "mat2 \<Rightarrow> bool" where
  "key_in_range m =
     (case m of Mat2 a b c d \<Rightarrow>
        0 \<le> a \<and> a < 26 \<and> 0 \<le> b \<and> b < 26 \<and> 0 \<le> c \<and> c < 26 \<and> 0 \<le> d \<and> d < 26)"

text \<open>
  An instance of the library for running the model on concrete inputs. It agrees with
  CPython, NumPy and Pillow on what the examples below pass to it: the characters below
  256 for \<open>isalpha\<close> and \<open>upper\<close>, the ASCII characters for \<open>int\<close>, 2x2 matrices with
  entries in [0, 26) for the determinant. The examples use images no larger than
  2000 x 2000 and give the output path, so they reach neither \<open>pil_thumbnail\<close> nor
  \<open>os_splitext\<close>.
\<close>

definition pylib :: lib where
  "pylib = \<lparr>
     np_det_round = det2,
     str_isalpha = (\<lambda>c. (65 \<le> c \<and> c \<le> 90) \<or> (97 \<le> c \<and> c \<le> 122) \<or> c = 170 \<or> c = 181
                        \<or> c = 186 \<or> (192 \<le> c \<and> c \<le> 214) \<or> (216 \<le> c \<and> c \<le> 246)
                        \<or> (248 \<le> c \<and> c \<le> 255)),
     str_upper = (\<lambda>c. if (97 \<le> c \<and> c \<le> 122) \<or> (224 \<le> c \<and> c \<le> 246) \<or> (248 \<le> c \<and> c \<le> 254)
                      then [c - 32]
                      else if c = 181 then [924] else if c = 223 then [83, 83]
                      else if c = 255 then [376] else [c]),
     str_int = (\<lambda>c. if 48 \<le> c \<and> c \<le> 57 then Some (c - 48) else None),
     pil_thumbnail = (\<lambda>a. a),
     os_splitext = (\<lambda>p. p) \<rparr>"

definition zero_image :: "nat \<Rightarrow> nat \<Rightarrow> image_file" where
  "zero_image h w = \<lparr>bands = 3, rgb = \<lparr>shape = (h, w, 3), data = replicate (h * w * 3) 0\<rparr>\<rparr>"

definition bytes_with_lsbs :: "bitstr \<Rightarrow> u8 list" where
  "bytes_with_lsbs bs = map (\<lambda>b. if b then 1 else 0) bs"

text \<open>
  A 6 x 9 RGB image (162 bytes) whose least-significant bits spell the character A, one
  0 bit, the delimiter (so at bit offset 9, not a multiple of 8), seven 0 bits, the
  delimiter again (at bit offset 88), and two 0 bits.
\<close>

definition unaligned_pixels :: "u8 list" where
  "unaligned_pixels =
     bytes_with_lsbs (string_to_binary (py ''A'') @ [False] @ string_to_binary delimiter
                      @ replicate 7 False @ string_to_binary delimiter @ [False, False])"

definition unaligned_image :: image_file where
  "unaligned_image = \<lparr>bands = 3, rgb = \<lparr>shape = (6, 9, 3), data = unaligned_pixels\<rparr>\<rparr>"

section \<open>Properties of the embedding codec\<close>

lemma int_base2_snoc: "int_base2 (bs @ [b]) = 2 * int_base2 bs + (if b then 1 else 0)"
  by (simp add: int_base2_def)

lemma int_base2_zeros: "int_base2 (replicate k False @ bs) = int_base2 bs"
proof -
  have "foldl (\<lambda>acc b. 2 * acc + (if b then 1 else 0)) (0::nat) (replicate k False) = 0"
    by (induction k) simp_all
  then show ?thesis by (simp add: int_base2_def)
qed

lemma int_base2_bin_digits: "int_base2 (bin_digits n) = n"
proof (induction n rule: bin_digits.induct)
  case (1 n)
  show ?case
  proof (cases "n < 2")
    case True
    then show ?thesis by (auto simp: bin_digits.simps [of n] int_base2_def)
  next
    case False
    with 1 show ?thesis
      by (simp add: bin_digits.simps [of n] int_base2_snoc)
  qed
qed

lemma length_bin_digits: "n < 2 ^ k \<Longrightarrow> 0 < k \<Longrightarrow> length (bin_digits n) \<le> k"
proof (induction n arbitrary: k rule: bin_digits.induct)
  case (1 n)
  show ?case
  proof (cases "n < 2")
    case True
    with 1 show ?thesis by (simp add: bin_digits.simps [of n])
  next
    case False
    then obtain j where k: "k = Suc j" using 1(3) by (cases k) auto
    with False 1(2) have "0 < j" by (cases j) auto
    moreover have "n div 2 < 2 ^ j" using 1(2) k by auto
    ultimately have "length (bin_digits (n div 2)) \<le> j"
      using 1(1) False by blast
    with False k show ?thesis by (simp add: bin_digits.simps [of n])
  qed
qed

lemma length_bin_digits_pos: "0 < length (bin_digits n)"
  by (subst bin_digits.simps) simp

lemma length_format_08b: "n < 256 \<Longrightarrow> length (format_08b n) = 8"
  using length_bin_digits [of n 8] by (simp add: format_08b_def Let_def)

lemma length_format_08b_ge: "8 \<le> length (format_08b n)"
  by (simp add: format_08b_def Let_def)

lemma int_base2_format_08b: "int_base2 (format_08b n) = n"
  by (simp add: format_08b_def Let_def int_base2_zeros int_base2_bin_digits)

lemma binary_to_string_Nil: "binary_to_string [] = []"
  by (simp add: binary_to_string.simps)

lemma binary_to_string_byte:
  "length byte = 8 \<Longrightarrow> binary_to_string (byte @ rest) = int_base2 byte # binary_to_string rest"
  by (subst binary_to_string.simps) auto

lemma binary_to_string_short:
  "length bs < 8 \<Longrightarrow> binary_to_string bs = []"
  by (subst binary_to_string.simps) (simp add: binary_to_string_Nil)

lemma binary_to_string_string_to_binary:
  "\<forall>c\<in>set text. c < 256 \<Longrightarrow> binary_to_string (string_to_binary text) = text"
proof (induction "text")
  case Nil
  show ?case by (simp add: string_to_binary_def binary_to_string_Nil)
next
  case (Cons c cs)
  then have "binary_to_string (string_to_binary cs) = cs" and "c < 256" by simp_all
  then show ?case
    using binary_to_string_byte [of "format_08b c" "string_to_binary cs"]
    by (simp add: string_to_binary_def length_format_08b int_base2_format_08b)
qed

lemma lsb_digit_odd: "lsb_digit p = odd p"
  by (simp add: lsb_digit_def get_lsb_def and_one_eq odd_iff_mod_2_eq_one)

lemma lsb_digit_modify_lsb: "lsb_digit (modify_lsb p b) = b"
  by (cases b) (simp_all add: lsb_digit_odd modify_lsb_def even_or_iff even_and_iff)

lemma modify_lsb_high: "modify_lsb p b AND 0xFE = p AND 0xFE"
proof -
  have "((p AND 0xFE) OR c) AND 0xFE = p AND 0xFE" if "c AND 0xFE = 0" for c :: u8
    using that by (simp add: bit.conj_disj_distrib2 and.assoc)
  then show ?thesis
    by (cases b) (simp_all add: modify_lsb_def)
qed

lemma hide_loop_length:
  "hide_loop i bs px = Inr px' \<Longrightarrow> length px' = length px"
  by (induction i bs px rule: hide_loop.induct) (auto split: if_splits)

lemma hide_loop_ok:
  "i + length bs \<le> length px \<Longrightarrow> \<exists>px'. hide_loop i bs px = Inr px'"
  by (induction i bs px rule: hide_loop.induct) auto

lemma hide_loop_nth:
  "hide_loop i bs px = Inr px' \<Longrightarrow> j < length px \<Longrightarrow>
   px' ! j = (if i \<le> j \<and> j < i + length bs then modify_lsb (px ! j) (bs ! (j - i)) else px ! j)"
proof (induction i bs px arbitrary: px' rule: hide_loop.induct)
  case (1 i px)
  then show ?case by auto
next
  case (2 i b bs px)
  then have i: "i < length px" by (auto split: if_splits)
  with 2 have eq: "hide_loop (Suc i) bs (px[i := modify_lsb (px ! i) b]) = Inr px'" by simp
  have "px' ! j = (if Suc i \<le> j \<and> j < Suc i + length bs
                   then modify_lsb (px[i := modify_lsb (px ! i) b] ! j) (bs ! (j - Suc i))
                   else px[i := modify_lsb (px ! i) b] ! j)"
    using 2(1) [OF i eq] 2(3) by simp
  then show ?case
    using i 2(3) by (auto simp: nth_list_update nth_Cons')
qed

lemma hide_loop_error:
  "hide_loop i bs px = Inl e \<Longrightarrow> e = IndexError \<and> length px < i + length bs"
  by (induction i bs px rule: hide_loop.induct) (auto split: if_splits)


lemma endswith_self: "endswith (xs @ d) d"
  by (simp add: endswith_def)

lemma extract_loop_none:
  "\<forall>k. 1 \<le> k \<and> k \<le> length px \<longrightarrow> \<not> endswith (acc @ take k (map lsb_digit px)) d \<Longrightarrow>
   extract_loop d acc px = acc @ map lsb_digit px"
proof (induction px arbitrary: acc)
  case Nil
  show ?case by simp
next
  case (Cons p px)
  have "\<not> endswith (acc @ [lsb_digit p]) d"
    using Cons.prems [rule_format, of 1] by simp
  moreover have "extract_loop d (acc @ [lsb_digit p]) px = (acc @ [lsb_digit p]) @ map lsb_digit px"
  proof (rule Cons.IH, intro allI impI)
    fix k assume "1 \<le> k \<and> k \<le> length px"
    then show "\<not> endswith ((acc @ [lsb_digit p]) @ take k (map lsb_digit px)) d"
      using Cons.prems [rule_format, of "Suc k"] by simp
  qed
  ultimately show ?case by (simp add: Let_def)
qed

lemma extract_loop_first:
  "1 \<le> n \<Longrightarrow> n \<le> length px \<Longrightarrow> endswith (acc @ take n (map lsb_digit px)) d \<Longrightarrow>
   \<forall>k. 1 \<le> k \<and> k < n \<longrightarrow> \<not> endswith (acc @ take k (map lsb_digit px)) d \<Longrightarrow>
   extract_loop d acc px =
     take (length acc + n - length d) (acc @ take n (map lsb_digit px))"
proof (induction px arbitrary: acc n)
  case Nil
  then show ?case by simp
next
  case (Cons p px)
  show ?case
  proof (cases "n = 1")
    case True
    with Cons.prems show ?thesis by (simp add: Let_def)
  next
    case False
    with Cons.prems obtain m where n: "n = Suc m" and m: "1 \<le> m" "m \<le> length px"
      by (cases n) auto
    have no: "\<not> endswith (acc @ [lsb_digit p]) d"
      using Cons.prems(4) [rule_format, of 1] False Cons.prems(1) by simp
    have "extract_loop d (acc @ [lsb_digit p]) px =
          take (length (acc @ [lsb_digit p]) + m - length d)
               ((acc @ [lsb_digit p]) @ take m (map lsb_digit px))"
    proof (rule Cons.IH [OF m], goal_cases)
      case 1
      show ?case using Cons.prems(3) n by simp
    next
      case 2
      show ?case
      proof (intro allI impI)
        fix k assume "1 \<le> k \<and> k < m"
        then show "\<not> endswith ((acc @ [lsb_digit p]) @ take k (map lsb_digit px)) d"
          using Cons.prems(4) [rule_format, of "Suc k"] n by simp
      qed
    qed
    with no n show ?thesis by (simp add: Let_def)
  qed
qed


lemma hide_message_body_too_large:
  "files image_path = Some f \<Longrightarrow>
   nd_size (load_cover L f) < length (string_to_binary (message @ delimiter)) \<Longrightarrow>
   hide_message_body L files image_path message output_path =
     (files, Inl (MessageTooLarge (nd_size (load_cover L f))
                    (length (string_to_binary (message @ delimiter)))))"
  by (simp add: hide_message_body_def Let_def)

lemma hide_message_body_fits:
  assumes "files image_path = Some f" and "wf_ndarray (load_cover L f)"
    and "length (string_to_binary (message @ delimiter)) \<le> nd_size (load_cover L f)"
  shows "\<exists>px'. hide_loop 0 (string_to_binary (message @ delimiter)) (flatten (load_cover L f)) = Inr px'
           \<and> hide_message_body L files image_path message output_path =
               (files((case output_path of None \<Rightarrow> os_splitext L image_path @ py ''_stego.png''
                                          | Some p \<Rightarrow> p)
                        \<mapsto> \<lparr>bands = 3, rgb = \<lparr>shape = shape (load_cover L f), data = px'\<rparr>\<rparr>),
                Inr ((case output_path of None \<Rightarrow> os_splitext L image_path @ py ''_stego.png''
                                          | Some p \<Rightarrow> p),
                     length (string_to_binary (message @ delimiter))))"
proof -
  let ?bits = "string_to_binary (message @ delimiter)"
  let ?px = "flatten (load_cover L f)"
  have len: "length ?px = nd_size (load_cover L f)"
    using assms(2) by (simp add: wf_ndarray_def flatten_def)
  with assms(3) obtain px' where px': "hide_loop 0 ?bits ?px = Inr px'"
    using hide_loop_ok [of 0 ?bits ?px] by auto
  then have "length px' = size_of_shape (shape (load_cover L f))"
    using hide_loop_length [OF px'] len by (simp add: nd_size_def)
  with px' assms(1,3) show ?thesis
    by (simp add: hide_message_body_def Let_def reshape_def)
qed

lemma hide_message_body_result:
  assumes "files image_path = Some f"
    and "hide_message_body L files image_path message output_path = (files', Inr (out, n))"
  shows "\<exists>px'. hide_loop 0 (string_to_binary (message @ delimiter)) (flatten (load_cover L f)) = Inr px'
           \<and> length px' = size_of_shape (shape (load_cover L f))
           \<and> n = length (string_to_binary (message @ delimiter))
           \<and> n \<le> nd_size (load_cover L f)
           \<and> files' = files(out \<mapsto> \<lparr>bands = 3, rgb = \<lparr>shape = shape (load_cover L f), data = px'\<rparr>\<rparr>)"
  using assms
  by (auto simp: hide_message_body_def Let_def reshape_def split: if_splits sum.splits)

lemma hide_message_Inr:
  "hide_message L files image_path message output_path = (files', Inr r) \<longleftrightarrow>
   hide_message_body L files image_path message output_path = (files', Inr r)"
  by (auto simp: hide_message_def split: prod.splits sum.splits if_splits)

lemma hide_message_body_error_files:
  "hide_message_body L files image_path message output_path = (files', Inl e) \<Longrightarrow> files' = files"
  by (auto simp: hide_message_body_def Let_def split: option.splits if_splits sum.splits)

lemma hide_message_error_files:
  "hide_message L files image_path message output_path = (files', Inl e) \<Longrightarrow> files' = files"
  by (auto simp: hide_message_def split: prod.splits sum.splits if_splits
           dest: hide_message_body_error_files)

text \<open>
  Claim C5. For an image that can be opened, \<open>hide_message\<close> raises the capacity error
  exactly when the bit length of the message with the delimiter exceeds the number of
  channel bytes of the loaded image, and succeeds exactly when it does not (so a payload
  of exactly that many bits is embedded); whenever the call raises, the file system, and
  with it the cover image, is as it was before the call.
\<close>

theorem hide_message_capacity:
  assumes "files image_path = Some f" and "wf_ndarray (load_cover L f)"
  shows "(hide_message L files image_path message output_path =
            (files, Inl (ErrorHidingMessage
                           (MessageTooLarge (nd_size (load_cover L f))
                              (length (string_to_binary (message @ delimiter)))))))
         = (nd_size (load_cover L f) < length (string_to_binary (message @ delimiter)))
       \<and> ((\<exists>files' out. hide_message L files image_path message output_path =
                 (files', Inr (out, length (string_to_binary (message @ delimiter)))))
            = (length (string_to_binary (message @ delimiter)) \<le> nd_size (load_cover L f)))
       \<and> (\<forall>files' e. hide_message L files image_path message output_path = (files', Inl e)
               \<longrightarrow> files' = files)"
proof (cases "nd_size (load_cover L f) < length (string_to_binary (message @ delimiter))")
  case True
  then show ?thesis
    using hide_message_body_too_large [of files image_path f L message output_path] assms(1)
    by (auto simp: hide_message_def dest: hide_message_error_files)
next
  case False
  then have le: "length (string_to_binary (message @ delimiter)) \<le> nd_size (load_cover L f)"
    by simp
  from hide_message_body_fits [of files image_path f L message output_path] assms le
  show ?thesis using False
    by (auto simp: hide_message_def dest: hide_message_error_files)
qed

theorem hide_message_capacity_witness:
  "hide_message pylib [py ''cover.png'' \<mapsto> zero_image 4 4] (py ''cover.png'') (py ''HI'') None
     = ([py ''cover.png'' \<mapsto> zero_image 4 4], Inl (ErrorHidingMessage (MessageTooLarge 48 88)))"
proof -
  let ?files = "[py ''cover.png'' \<mapsto> zero_image 4 4]"
  have h1: "?files (py ''cover.png'') = Some (zero_image 4 4)" by simp
  have h2: "wf_ndarray (load_cover pylib (zero_image 4 4))" by code_simp
  have v1: "nd_size (load_cover pylib (zero_image 4 4)) = 48" by code_simp
  have v2: "length (string_to_binary (py ''HI'' @ delimiter)) = 88" by code_simp
  from hide_message_capacity [of ?files "py ''cover.png''" "zero_image 4 4" pylib "py ''HI''" None]
    h1 h2 v1 v2
  show ?thesis by simp
qed


text \<open>
  Claim C6. When \<open>hide_message\<close> succeeds with \<open>n\<close> bits (message and delimiter), the
  image it writes has the shape of the loaded cover image; each of the first \<open>n\<close> channel
  bytes, in row-major, channel-minor order, keeps its 7 higher bits and carries the
  corresponding message bit in its lowest bit; every byte at offset \<open>n\<close> or beyond is
  unchanged.
\<close>

theorem hide_message_frame:
  assumes "files image_path = Some f"
    and "hide_message L files image_path message output_path = (files', Inr (out, n))"
  shows "\<exists>stego. files' out = Some stego
           \<and> n = length (string_to_binary (message @ delimiter))
           \<and> shape (rgb stego) = shape (load_cover L f)
           \<and> length (flatten (rgb stego)) = length (flatten (load_cover L f))
           \<and> (\<forall>i < length (flatten (load_cover L f)).
                 (i < n \<longrightarrow>
                    flatten (rgb stego) ! i AND 0xFE = flatten (load_cover L f) ! i AND 0xFE
                    \<and> lsb_digit (flatten (rgb stego) ! i)
                        = string_to_binary (message @ delimiter) ! i)
                 \<and> (n \<le> i \<longrightarrow> flatten (rgb stego) ! i = flatten (load_cover L f) ! i))
           \<and> (\<forall>r c k. flat_index (load_cover L f) r c k < length (flatten (load_cover L f))
                   \<and> n \<le> flat_index (load_cover L f) r c k
                 \<longrightarrow> item (rgb stego) r c k = item (load_cover L f) r c k)"
proof -
  let ?bits = "string_to_binary (message @ delimiter)"
  let ?px = "flatten (load_cover L f)"
  from assms(2) have "hide_message_body L files image_path message output_path = (files', Inr (out, n))"
    by (simp add: hide_message_Inr)
  from hide_message_body_result [OF assms(1) this]
  obtain px' where px': "hide_loop 0 ?bits ?px = Inr px'"
    and n: "n = length ?bits"
    and files': "files' = files(out \<mapsto> \<lparr>bands = 3, rgb = \<lparr>shape = shape (load_cover L f), data = px'\<rparr>\<rparr>)"
    by blast
  have len: "length px' = length ?px" by (rule hide_loop_length [OF px'])
  have nth: "px' ! i = (if i < n then modify_lsb (?px ! i) (?bits ! i) else ?px ! i)"
    if "i < length ?px" for i
    using hide_loop_nth [OF px' that] n by simp
  let ?stego = "\<lparr>bands = 3, rgb = \<lparr>shape = shape (load_cover L f), data = px'\<rparr>\<rparr>"
  have "files' out = Some ?stego" using files' by simp
  moreover have "shape (rgb ?stego) = shape (load_cover L f)" by simp
  moreover have "length (flatten (rgb ?stego)) = length ?px" using len by (simp add: flatten_def)
  moreover have "\<forall>i < length ?px.
      (i < n \<longrightarrow> flatten (rgb ?stego) ! i AND 0xFE = ?px ! i AND 0xFE
                 \<and> lsb_digit (flatten (rgb ?stego) ! i) = ?bits ! i)
      \<and> (n \<le> i \<longrightarrow> flatten (rgb ?stego) ! i = ?px ! i)"
    using nth by (simp add: flatten_def modify_lsb_high lsb_digit_modify_lsb)
  moreover have "\<forall>r c k. flat_index (load_cover L f) r c k < length ?px
                   \<and> n \<le> flat_index (load_cover L f) r c k
                 \<longrightarrow> item (rgb ?stego) r c k = item (load_cover L f) r c k"
    using nth by (simp add: item_def flat_index_def flatten_def)
  ultimately show ?thesis using n by blast
qed

theorem hide_message_frame_witness:
  "\<exists>stego. fst (hide_message pylib [py ''cover.png'' \<mapsto> zero_image 4 8] (py ''cover.png'')
                     (py ''A'') (Some (py ''stego.png''))) (py ''stego.png'') = Some stego
           \<and> shape (rgb stego) = (4, 8, 3)
           \<and> length (flatten (rgb stego)) = 96
           \<and> (\<forall>i<96. 80 \<le> i \<longrightarrow> flatten (rgb stego) ! i = 0)
           \<and> (\<forall>i<80. flatten (rgb stego) ! i AND 0xFE = 0)"
proof -
  let ?files = "[py ''cover.png'' \<mapsto> zero_image 4 8]"
  let ?h = "hide_message pylib ?files (py ''cover.png'') (py ''A'') (Some (py ''stego.png''))"
  have h1: "?files (py ''cover.png'') = Some (zero_image 4 8)" by simp
  have "snd ?h = Inr (py ''stego.png'', 80)" by code_simp
  then have h2: "?h = (fst ?h, Inr (py ''stego.png'', 80))" by (simp add: prod_eq_iff)
  have v1: "shape (load_cover pylib (zero_image 4 8)) = (4, 8, 3)" by code_simp
  have v2: "flatten (load_cover pylib (zero_image 4 8)) = replicate 96 0" by code_simp
  from hide_message_frame [OF h1 h2] v1 v2
  show ?thesis by (auto simp: )
qed

lemma string_to_binary_append:
  "string_to_binary (a @ b) = string_to_binary a @ string_to_binary b"
  by (simp add: string_to_binary_def)

lemma no_early_delimiter_iff:
  "no_early_delimiter bs \<longleftrightarrow> (\<forall>n<length bs. \<not> endswith (take n bs) (string_to_binary delimiter))"
  by (auto simp: no_early_delimiter_def list_all_iff)

lemma length_delimiter_bits: "length (string_to_binary delimiter) = 72"
  by code_simp

lemma extract_pixels_first:
  assumes "n \<le> length px"
    and "endswith (take n (map lsb_digit px)) (string_to_binary delimiter)"
    and "\<forall>k<n. \<not> endswith (take k (map lsb_digit px)) (string_to_binary delimiter)"
  shows "extract_pixels px = binary_to_string (take (n - 72) (map lsb_digit px))"
proof -
  let ?d = "string_to_binary delimiter"
  have "72 \<le> n" using assms(1,2) by (simp add: endswith_def length_delimiter_bits)
  then have n1: "1 \<le> n" by simp
  have "extract_loop ?d [] px = take (length ([]::bitstr) + n - length ?d) ([] @ take n (map lsb_digit px))"
    by (rule extract_loop_first [OF n1 assms(1)]) (use assms in simp_all)
  then have "extract_loop ?d [] px = take (n - 72) (map lsb_digit px)"
    by (simp add: length_delimiter_bits min_def)
  then show ?thesis
    by (simp add: extract_pixels_def Let_def binary_to_string_Nil)
qed

lemma extract_pixels_none:
  assumes "\<forall>k\<le>length px. \<not> endswith (take k (map lsb_digit px)) (string_to_binary delimiter)"
  shows "extract_pixels px = binary_to_string (map lsb_digit px)"
proof -
  have "extract_loop (string_to_binary delimiter) [] px = [] @ map lsb_digit px"
    by (rule extract_loop_none) (use assms in simp)
  then show ?thesis
    by (simp add: extract_pixels_def Let_def binary_to_string_Nil)
qed

text \<open>
  Claim C2, amended. For a cover image with at least as many channel bytes as the bit
  length of message plus delimiter, and a message of characters below 256 such that the
  delimiter's bit pattern is complete nowhere in the bits of message plus delimiter
  before their end, extracting from the image that \<open>hide_message\<close> writes gives the
  message back.
\<close>

theorem hide_extract_roundtrip:
  assumes "files image_path = Some f" and "wf_ndarray (load_cover L f)"
    and "\<forall>c\<in>set message. c < 256"
    and "no_early_delimiter (string_to_binary (message @ delimiter))"
    and "length (string_to_binary (message @ delimiter)) \<le> nd_size (load_cover L f)"
  shows "\<exists>files' out. hide_message L files image_path message output_path =
            (files', Inr (out, length (string_to_binary (message @ delimiter))))
          \<and> extract_message files' out = Inr message"
proof -
  let ?bits = "string_to_binary (message @ delimiter)"
  let ?px = "flatten (load_cover L f)"
  let ?out = "case output_path of None \<Rightarrow> os_splitext L image_path @ py ''_stego.png'' | Some p \<Rightarrow> p"
  from hide_message_body_fits [of files image_path f L message output_path] assms(1,2,5)
  obtain px' where px': "hide_loop 0 ?bits ?px = Inr px'"
    and body: "hide_message_body L files image_path message output_path =
      (files(?out \<mapsto> \<lparr>bands = 3, rgb = \<lparr>shape = shape (load_cover L f), data = px'\<rparr>\<rparr>),
       Inr (?out, length ?bits))"
    by blast
  have lenpx: "length ?px = nd_size (load_cover L f)"
    using assms(2) by (simp add: wf_ndarray_def flatten_def)
  have len: "length px' = length ?px" by (rule hide_loop_length [OF px'])
  have N: "length ?bits \<le> length px'" using len lenpx assms(5) by simp
  have lsbs: "take (length ?bits) (map lsb_digit px') = ?bits"
  proof (rule nth_equalityI)
    show "length (take (length ?bits) (map lsb_digit px')) = length ?bits" using N by simp
  next
    fix i assume "i < length (take (length ?bits) (map lsb_digit px'))"
    then have i: "i < length ?bits" by simp
    with N len have "i < length ?px" by simp
    from hide_loop_nth [OF px' this] i
    show "take (length ?bits) (map lsb_digit px') ! i = ?bits ! i"
      using N by (simp add: lsb_digit_modify_lsb)
  qed
  have takek: "take k (map lsb_digit px') = take k ?bits" if "k \<le> length ?bits" for k
  proof -
    have "take k (take (length ?bits) (map lsb_digit px')) = take k ?bits" by (simp only: lsbs)
    with that show ?thesis by (simp add: min_def)
  qed
  have "extract_pixels px' = binary_to_string (take (length ?bits - 72) (map lsb_digit px'))"
  proof (rule extract_pixels_first [OF N])
    have "endswith ?bits (string_to_binary delimiter)"
      by (simp only: string_to_binary_append endswith_self)
    then show "endswith (take (length ?bits) (map lsb_digit px')) (string_to_binary delimiter)"
      by (simp only: lsbs)
  next
    show "\<forall>k<length ?bits. \<not> endswith (take k (map lsb_digit px')) (string_to_binary delimiter)"
      using assms(4) takek by (simp add: no_early_delimiter_iff)
  qed
  also have "take (length ?bits - 72) (map lsb_digit px') = take (length ?bits - 72) ?bits"
    by (rule takek) simp
  also have "\<dots> = string_to_binary message"
    by (simp add: string_to_binary_append length_delimiter_bits)
  finally have "extract_pixels px' = message"
    using assms(3) by (simp add: binary_to_string_string_to_binary)
  then have "extract_message (files(?out \<mapsto> \<lparr>bands = 3, rgb = \<lparr>shape = shape (load_cover L f), data = px'\<rparr>\<rparr>)) ?out
             = Inr message"
    by (simp add: extract_message_def flatten_def)
  with body show ?thesis
    by (auto simp: hide_message_def)
qed

theorem hide_extract_roundtrip_witness:
  "\<exists>files' out. hide_message pylib [py ''cover.png'' \<mapsto> zero_image 4 8] (py ''cover.png'')
                     (py ''A'') (Some (py ''stego.png'')) = (files', Inr (out, 80))
           \<and> extract_message files' out = Inr (py ''A'')"
proof -
  let ?files = "[py ''cover.png'' \<mapsto> zero_image 4 8]"
  have h1: "?files (py ''cover.png'') = Some (zero_image 4 8)" by simp
  have h2: "wf_ndarray (load_cover pylib (zero_image 4 8))" by code_simp
  have h3: "\<forall>c\<in>set (py ''A''). c < 256" by (simp add: py_def)
  have h4: "no_early_delimiter (string_to_binary (py ''A'' @ delimiter))" by code_simp
  have v: "length (string_to_binary (py ''A'' @ delimiter)) = 80" by code_simp
  have h5: "length (string_to_binary (py ''A'' @ delimiter)) \<le> nd_size (load_cover pylib (zero_image 4 8))"
    by code_simp
  from hide_extract_roundtrip [of ?files "py ''cover.png''" "zero_image 4 8" pylib "py ''A''"
         "Some (py ''stego.png'')"] h1 h2 h3 h4 h5 v
  show ?thesis by auto
qed

text \<open>
  Claim C2 as stated fails: the message \<open>###END###\<close> fits the 6 x 8 image (144 bits for
  144 channel bytes), is embedded, and extraction stops at the first delimiter and
  returns the empty string.
\<close>

theorem hide_extract_counterexample:
  "(case hide_message pylib [py ''cover.png'' \<mapsto> zero_image 6 8] (py ''cover.png'')
           (py ''###END###'') (Some (py ''stego.png'')) of
      (files', r) \<Rightarrow> r = Inr (py ''stego.png'', 144)
                     \<and> extract_message files' (py ''stego.png'') = Inr [])
   \<and> 144 \<le> nd_size (load_cover pylib (zero_image 6 8))"
  by code_simp

lemma binary_to_string_nonempty: "8 \<le> length bs \<Longrightarrow> binary_to_string bs \<noteq> []"
proof -
  assume "8 \<le> length bs"
  then have "binary_to_string (take 8 bs @ drop 8 bs) = int_base2 (take 8 bs) # binary_to_string (drop 8 bs)"
    by (intro binary_to_string_byte) simp
  then show ?thesis by simp
qed

lemma binary_to_string_chunks:
  "binary_to_string bs = map (\<lambda>j. int_base2 (take 8 (drop (8 * j) bs))) [0..<length bs div 8]"
proof (induction bs rule: binary_to_string.induct)
  case (1 bs)
  show ?case
  proof (cases "length bs < 8")
    case True
    then show ?thesis by (simp add: binary_to_string_short)
  next
    case False
    then have ne: "bs \<noteq> []" by auto
    have split: "binary_to_string bs = int_base2 (take 8 bs) # binary_to_string (drop 8 bs)"
      using binary_to_string_byte [of "take 8 bs" "drop 8 bs"] False by simp
    have div: "length bs div 8 = Suc ((length bs - 8) div 8)"
      using False by (simp add: le_div_geq)
    have "[0..<Suc ((length bs - 8) div 8)] = 0 # map Suc [0..<(length bs - 8) div 8]"
      by (simp add: upt_conv_Cons map_Suc_upt del: upt_Suc)
    then have "map (\<lambda>j. int_base2 (take 8 (drop (8 * j) bs))) [0..<length bs div 8]
        = int_base2 (take 8 bs) # map (\<lambda>j. int_base2 (take 8 (drop (8 * j) (drop 8 bs)))) [0..<(length bs - 8) div 8]"
      by (simp add: div comp_def add.commute)
    with split 1 [OF ne] show ?thesis by simp
  qed
qed

lemma delimiter_absent_iff:
  "delimiter_absent bs \<longleftrightarrow> (\<forall>n\<le>length bs. \<not> endswith (take n bs) (string_to_binary delimiter))"
  by (auto simp: delimiter_absent_def list_all_iff less_Suc_eq_le)

text \<open>
  Claim C1. The code does not do what the claim says: when the delimiter's bit pattern
  occurs nowhere in the least-significant bits, \<open>extract_message\<close> does not raise, but
  it decodes all the least-significant bits of the image and returns those characters,
  which for an image of 8 or more channel bytes is not the empty string.
\<close>

theorem extract_message_no_delimiter:
  assumes "files image_path = Some f"
    and "delimiter_absent (map lsb_digit (flatten (rgb f)))"
    and "8 \<le> length (flatten (rgb f))"
  shows "extract_message files image_path = Inr (binary_to_string (map lsb_digit (flatten (rgb f))))
         \<and> binary_to_string (map lsb_digit (flatten (rgb f))) \<noteq> []"
proof -
  have "extract_pixels (flatten (rgb f)) = binary_to_string (map lsb_digit (flatten (rgb f)))"
    by (rule extract_pixels_none) (use assms(2) in \<open>simp add: delimiter_absent_iff\<close>)
  moreover have "binary_to_string (map lsb_digit (flatten (rgb f))) \<noteq> []"
    by (rule binary_to_string_nonempty) (use assms(3) in simp)
  ultimately show ?thesis using assms(1) by (simp add: extract_message_def)
qed

theorem extract_message_no_delimiter_witness:
  "extract_message [py ''cover.png'' \<mapsto> zero_image 4 8] (py ''cover.png'')
     = Inr [0, 0, 0, 0, 0, 0, 0, 0, 0, 0, 0, 0]"
proof -
  let ?files = "[py ''cover.png'' \<mapsto> zero_image 4 8]"
  have h1: "?files (py ''cover.png'') = Some (zero_image 4 8)" by simp
  have h2: "delimiter_absent (map lsb_digit (flatten (rgb (zero_image 4 8))))" by code_simp
  have h3: "8 \<le> length (flatten (rgb (zero_image 4 8)))" by code_simp
  have v: "binary_to_string (map lsb_digit (flatten (rgb (zero_image 4 8))))
             = [0, 0, 0, 0, 0, 0, 0, 0, 0, 0, 0, 0]" by code_simp
  from extract_message_no_delimiter [of ?files "py ''cover.png''" "zero_image 4 8"] h1 h2 h3 v
  show ?thesis by simp
qed

text \<open>
  Claim C7, amended. The delimiter test runs after every appended bit: extraction stops
  at the first bit offset \<open>n\<close>, a multiple of 8 or not, at which the bits read so far end
  with the delimiter's pattern; it drops the delimiter and decodes the bits before it 8
  at a time, leaving out a last group of fewer than 8.
\<close>

theorem extract_stops_at_first_match:
  assumes "files image_path = Some f"
    and "n \<le> length (flatten (rgb f))"
    and "endswith (take n (map lsb_digit (flatten (rgb f)))) (string_to_binary delimiter)"
    and "\<forall>k<n. \<not> endswith (take k (map lsb_digit (flatten (rgb f)))) (string_to_binary delimiter)"
  shows "extract_message files image_path =
           Inr (binary_to_string
                  (take (n - length (string_to_binary delimiter)) (map lsb_digit (flatten (rgb f)))))
         \<and> binary_to_string
             (take (n - length (string_to_binary delimiter)) (map lsb_digit (flatten (rgb f))))
           = map (\<lambda>j. int_base2 (take 8 (drop (8 * j) (map lsb_digit (flatten (rgb f))))))
                 [0..<(n - length (string_to_binary delimiter)) div 8]"
proof -
  let ?bs = "map lsb_digit (flatten (rgb f))"
  let ?m = "n - length (string_to_binary delimiter)"
  have "extract_pixels (flatten (rgb f)) = binary_to_string (take (n - 72) ?bs)"
    by (rule extract_pixels_first [OF assms(2,3,4)])
  then have a: "extract_message files image_path = Inr (binary_to_string (take ?m ?bs))"
    using assms(1) by (simp add: extract_message_def length_delimiter_bits)
  have len: "length (take ?m ?bs) = ?m" using assms(2) by simp
  have "binary_to_string (take ?m ?bs)
          = map (\<lambda>j. int_base2 (take 8 (drop (8 * j) (take ?m ?bs)))) [0..<?m div 8]"
    using binary_to_string_chunks [of "take ?m ?bs"] by (simp only: len)
  also have "\<dots> = map (\<lambda>j. int_base2 (take 8 (drop (8 * j) ?bs))) [0..<?m div 8]"
  proof (rule map_cong [OF refl])
    fix j assume "j \<in> set [0..<?m div 8]"
    then have "j < ?m div 8" by simp
    then have "8 * j + 8 \<le> ?m" by simp
    then show "int_base2 (take 8 (drop (8 * j) (take ?m ?bs))) = int_base2 (take 8 (drop (8 * j) ?bs))"
      by (simp add: drop_take min_def)
  qed
  finally show ?thesis using a by simp
qed


theorem extract_stops_at_first_match_witness:
  "extract_message [py ''stego.png'' \<mapsto> unaligned_image] (py ''stego.png'') = Inr (py ''A'')"
proof -
  let ?files = "[py ''stego.png'' \<mapsto> unaligned_image]"
  let ?bs = "map lsb_digit (flatten (rgb unaligned_image))"
  have h1: "?files (py ''stego.png'') = Some unaligned_image" by simp
  have h2: "81 \<le> length (flatten (rgb unaligned_image))" by code_simp
  have h3: "endswith (take 81 ?bs) (string_to_binary delimiter)" by code_simp
  have "list_all (\<lambda>k. \<not> endswith (take k ?bs) (string_to_binary delimiter)) [0..<81]"
    by code_simp
  then have h4: "\<forall>k<81. \<not> endswith (take k ?bs) (string_to_binary delimiter)"
    by (simp add: list_all_iff)
  have v: "binary_to_string (take (81 - length (string_to_binary delimiter)) ?bs) = py ''A''"
    by code_simp
  from extract_stops_at_first_match [of ?files "py ''stego.png''" unaligned_image 81] h1 h2 h3 h4 v
  show ?thesis by simp
qed

text \<open>
  Claim C7 as stated fails: on \<open>unaligned_pixels\<close> the code stops at the delimiter that
  ends at bit 81 and returns \<open>A\<close>, where a test after completed bytes only would pass
  over it and stop at the delimiter that ends at bit 160.
\<close>

theorem extract_bytewise_counterexample:
  "extract_pixels unaligned_pixels = py ''A''
   \<and> extract_spec unaligned_pixels \<noteq> extract_pixels unaligned_pixels"
  by code_simp

section \<open>Properties of the block cipher\<close>

lemma is_bits_iff: "is_bits bs \<longleftrightarrow> (\<forall>b\<in>set bs. b = 0 \<or> b = 1)"
  by (simp add: is_bits_def list_all_iff)

lemma is_bits_append: "is_bits (xs @ ys) \<longleftrightarrow> is_bits xs \<and> is_bits ys"
  by (auto simp: is_bits_iff)

lemma is_bits_take: "is_bits xs \<Longrightarrow> is_bits (take n xs)"
  by (auto simp: is_bits_iff dest: in_set_takeD)

lemma is_bits_drop: "is_bits xs \<Longrightarrow> is_bits (drop n xs)"
  by (auto simp: is_bits_iff dest: in_set_dropD)

lemma and_one_bit: "(x::nat) AND 1 = 0 \<or> x AND 1 = 1"
  by (cases "even x") (auto simp: and_one_eq odd_iff_mod_2_eq_one)

lemma length_int_to_bits: "length (int_to_bits n k) = k"
  by (simp add: int_to_bits_def)

lemma is_bits_int_to_bits: "is_bits (int_to_bits n k)"
  using and_one_bit by (auto simp: is_bits_iff int_to_bits_def)

lemma length_permute: "length (permute xs t) = length t"
  by (simp add: permute_def)

lemma is_bits_permute:
  "is_bits xs \<Longrightarrow> \<forall>i\<in>set t. 1 \<le> i \<and> i \<le> length xs \<Longrightarrow> is_bits (permute xs t)"
proof -
  assume b: "is_bits xs" and r: "\<forall>i\<in>set t. 1 \<le> i \<and> i \<le> length xs"
  have "xs ! (i - 1) = 0 \<or> xs ! (i - 1) = 1" if "i \<in> set t" for i
  proof -
    from r that have "i - 1 < length xs" by auto
    then have "xs ! (i - 1) \<in> set xs" by (rule nth_mem)
    with b show ?thesis by (simp add: is_bits_iff)
  qed
  then show ?thesis by (auto simp: is_bits_iff permute_def)
qed

lemma length_xor_bits: "length (xor_bits xs ys) = min (length xs) (length ys)"
  by (simp add: xor_bits_def)

lemma xor_bit: "(a = 0 \<or> a = 1) \<Longrightarrow> (b = 0 \<or> b = 1) \<Longrightarrow> (a XOR b = 0 \<or> a XOR b = (1::nat))"
  by auto

lemma is_bits_xor_bits: "is_bits xs \<Longrightarrow> is_bits ys \<Longrightarrow> is_bits (xor_bits xs ys)"
proof (induction xs arbitrary: ys)
  case Nil
  then show ?case by (simp add: xor_bits_def is_bits_def)
next
  case (Cons x xs)
  show ?case
  proof (cases ys)
    case Nil
    then show ?thesis by (simp add: xor_bits_def is_bits_def)
  next
    case (Cons y ys')
    with Cons.prems have "is_bits xs" "is_bits ys'" "x = 0 \<or> x = 1" "y = 0 \<or> y = 1"
      by (simp_all add: is_bits_def)
    with Cons.IH [of ys'] xor_bit [of x y] Cons show ?thesis
      by (simp add: xor_bits_def is_bits_def)
  qed
qed

lemma xor_bits_cancel: "length xs = length ys \<Longrightarrow> xor_bits (xor_bits xs ys) ys = xs"
proof (induction xs arbitrary: ys)
  case Nil
  then show ?case by (simp add: xor_bits_def)
next
  case (Cons x xs)
  then obtain y ys' where ys: "ys = y # ys'" and "length xs = length ys'" by (cases ys) auto
  with Cons.IH [of ys'] show ?case
    by (simp add: xor_bits_def xor.assoc)
qed

lemma list8: "length xs = 8 \<Longrightarrow> \<exists>a b c d e f g h. xs = [a, b, c, d, e, f, g, h]"
  by (auto simp: length_Suc_conv numeral_eq_Suc)

lemma list4: "length xs = 4 \<Longrightarrow> \<exists>a b c d. xs = [a, b, c, d]"
  by (auto simp: length_Suc_conv numeral_eq_Suc)

lemma permute_IP_INV_IP: "length xs = 8 \<Longrightarrow> permute (permute xs IP) IP_INV = xs"
  by (auto dest!: list8 simp: permute_def IP_def IP_INV_def)

lemma permute_IP_IP_INV: "length xs = 8 \<Longrightarrow> permute (permute xs IP_INV) IP = xs"
  by (auto dest!: list8 simp: permute_def IP_def IP_INV_def)

lemma sbox_lookup_ok:
  "row < 4 \<Longrightarrow> col < 4 \<Longrightarrow> sbox_lookup box row col = Inr (box ! row ! col)"
  by (simp add: sbox_lookup_def)

lemma index_bound:
  "(a = 0 \<or> a = 1) \<Longrightarrow> (b = 0 \<or> b = 1) \<Longrightarrow> push_bit 1 a OR b < (4::nat)"
proof -
  have "push_bit 1 (0::nat) OR 0 < 4" "push_bit 1 (0::nat) OR 1 < 4"
       "push_bit 1 (1::nat) OR 0 < 4" "push_bit 1 (1::nat) OR 1 < 4"
    by code_simp+
  then show "(a = 0 \<or> a = 1) \<Longrightarrow> (b = 0 \<or> b = 1) \<Longrightarrow> push_bit 1 a OR b < (4::nat)"
    by blast
qed

lemma sbox_substitution_ok:
  assumes "length xs = 8" and "is_bits xs"
  shows "\<exists>ys. sbox_substitution xs = Inr ys \<and> length ys = 4 \<and> is_bits ys"
proof -
  from list8 [OF assms(1)] obtain a b c d e f g h where xs: "xs = [a, b, c, d, e, f, g, h]"
    by blast
  with assms(2) have bits: "a = 0 \<or> a = 1" "b = 0 \<or> b = 1" "c = 0 \<or> c = 1" "d = 0 \<or> d = 1"
    "e = 0 \<or> e = 1" "f = 0 \<or> f = 1" "g = 0 \<or> g = 1" "h = 0 \<or> h = 1"
    by (simp_all add: is_bits_iff)
  have r0: "push_bit 1 a OR d < 4" and c0: "push_bit 1 b OR c < 4"
    and r1: "push_bit 1 e OR h < 4" and c1: "push_bit 1 f OR g < 4"
    by (rule index_bound [OF bits(1) bits(4)], rule index_bound [OF bits(2) bits(3)],
        rule index_bound [OF bits(5) bits(8)], rule index_bound [OF bits(6) bits(7)])
  have s0: "sbox_lookup S0 (push_bit 1 a OR d) (push_bit 1 b OR c)
              = Inr (S0 ! (push_bit 1 a OR d) ! (push_bit 1 b OR c))"
    by (rule sbox_lookup_ok [OF r0 c0])
  have s1: "sbox_lookup S1 (push_bit 1 e OR h) (push_bit 1 f OR g)
              = Inr (S1 ! (push_bit 1 e OR h) ! (push_bit 1 f OR g))"
    by (rule sbox_lookup_ok [OF r1 c1])
  have "sbox_substitution xs =
          Inr (int_to_bits (S0 ! (push_bit 1 a OR d) ! (push_bit 1 b OR c)) 2
               @ int_to_bits (S1 ! (push_bit 1 e OR h) ! (push_bit 1 f OR g)) 2)"
    unfolding sbox_substitution_def Let_def xs using s0 s1 by simp
  then show ?thesis
    by (simp add: length_int_to_bits is_bits_append is_bits_int_to_bits)
qed

lemma f_function_ok:
  assumes "length r = 4" and "is_bits r" and "length k = 8" and "is_bits k"
  shows "\<exists>ys. f_function r k = Inr ys \<and> length ys = 4 \<and> is_bits ys"
proof -
  have ep: "is_bits (permute r EP)"
    by (rule is_bits_permute [OF assms(2)]) (simp add: EP_def assms(1))
  have "length (xor_bits (permute r EP) k) = 8"
    by (simp add: length_xor_bits length_permute EP_def assms(3))
  moreover have "is_bits (xor_bits (permute r EP) k)"
    by (rule is_bits_xor_bits [OF ep assms(4)])
  ultimately obtain ys where ys: "sbox_substitution (xor_bits (permute r EP) k) = Inr ys"
    "length ys = 4" "is_bits ys"
    using sbox_substitution_ok by blast
  have "is_bits (permute ys P4)"
    by (rule is_bits_permute [OF ys(3)]) (simp add: P4_def ys(2))
  with ys show ?thesis
    by (simp add: f_function_def Let_def length_permute P4_def)
qed

lemma encrypt_block_roundtrip:
  assumes "length b = 8" and "is_bits b" and "length k1 = 8" and "is_bits k1"
    and "length k2 = 8" and "is_bits k2"
  shows "\<exists>c. encrypt_block b k1 k2 = Inr c \<and> length c = 8 \<and> is_bits c
             \<and> encrypt_block c k2 k1 = Inr b"
proof -
  let ?ip = "permute b IP"
  let ?L0 = "take 4 ?ip" and ?R0 = "drop 4 ?ip"
  have ipb: "is_bits ?ip" by (rule is_bits_permute [OF assms(2)]) (simp add: IP_def assms(1))
  have lip: "length ?ip = 8" by (simp add: length_permute IP_def)
  have lL0: "length ?L0 = 4" and lR0: "length ?R0 = 4" by (simp_all add: lip)
  have bL0: "is_bits ?L0" and bR0: "is_bits ?R0" using ipb by (simp_all add: is_bits_take is_bits_drop)
  from f_function_ok [OF lR0 bR0 assms(3,4)] obtain f1 where
    f1: "f_function ?R0 k1 = Inr f1" "length f1 = 4" "is_bits f1" by blast
  let ?R1 = "xor_bits ?L0 f1"
  have lR1: "length ?R1 = 4" using lL0 f1(2) by (simp only: length_xor_bits)
  have bR1: "is_bits ?R1" by (rule is_bits_xor_bits [OF bL0 f1(3)])
  from f_function_ok [OF lR1 bR1 assms(5,6)] obtain f2 where
    f2: "f_function ?R1 k2 = Inr f2" "length f2 = 4" "is_bits f2" by blast
  let ?NL = "xor_bits ?R0 f2"
  have lNL: "length ?NL = 4" using lR0 f2(2) by (simp only: length_xor_bits)
  have bNL: "is_bits ?NL" by (rule is_bits_xor_bits [OF bR0 f2(3)])
  let ?comb = "?NL @ ?R1"
  let ?c = "permute ?comb IP_INV"
  have enc: "encrypt_block b k1 k2 = Inr ?c"
    by (simp add: encrypt_block_def Let_def f1(1) f2(1))
  have lcomb: "length ?comb = 8" using lNL lR1 by simp
  have bc: "is_bits ?c"
    by (rule is_bits_permute) (simp_all add: is_bits_append bNL bR1 IP_INV_def lNL lR1)
  have lc: "length ?c = 8" by (simp add: length_permute IP_INV_def)
  have ipc: "permute ?c IP = ?comb" by (rule permute_IP_IP_INV [OF lcomb])
  have t: "take 4 ?comb = ?NL" and d: "drop 4 ?comb = ?R1" by (simp_all add: lNL)
  have x1: "xor_bits ?NL f2 = ?R0" by (rule xor_bits_cancel) (simp only: lR0 f2(2))
  have x2: "xor_bits ?R1 f1 = ?L0" by (rule xor_bits_cancel) (simp only: lL0 f1(2))
  have "encrypt_block ?c k2 k1 = Inr (permute (?L0 @ ?R0) IP_INV)"
    by (simp only: encrypt_block_def Let_def ipc t d f2(1) sum.case x1 f1(1) x2)
  then have "encrypt_block ?c k2 k1 = Inr b"
    by (simp only: append_take_drop_id permute_IP_INV_IP [OF assms(1)])
  with enc lc bc show ?thesis by blast
qed

lemma byte_value_8:
  "byte_value [a, b, c, d, e, f, g, h]
     = a * 128 + b * 64 + c * 32 + d * 16 + e * 8 + f * 4 + g * 2 + h"
  by (simp add: byte_value_def enumerate_eq_zip upt_rec)

lemma int_to_bits_8:
  "int_to_bits c 8 = [drop_bit 7 c AND 1, drop_bit 6 c AND 1, drop_bit 5 c AND 1,
                       drop_bit 4 c AND 1, drop_bit 3 c AND 1, drop_bit 2 c AND 1,
                       drop_bit 1 c AND 1, drop_bit 0 c AND 1]"
proof -
  have "rev [0..<8] = [7, 6, 5, 4, 3, 2, 1, 0::nat]" by code_simp
  then show ?thesis by (simp add: int_to_bits_def)
qed

lemma bit_decomposition:
  fixes c :: nat
  assumes "c < 256"
  shows "(c div 128 mod 2) * 128 + (c div 64 mod 2) * 64 + (c div 32 mod 2) * 32
         + (c div 16 mod 2) * 16 + (c div 8 mod 2) * 8 + (c div 4 mod 2) * 4
         + (c div 2 mod 2) * 2 + c mod 2 = c"
proof -
  have s: "x = 2 * (x div 2) + x mod 2" for x :: nat by simp
  have d: "x div m div 2 = x div (m * 2)" for x m :: nat by (simp add: div_mult2_eq)
  have e0: "c = 2 * (c div 2) + c mod 2" by (rule s)
  have e1: "c div 2 = 2 * (c div 4) + c div 2 mod 2" using s [of "c div 2"] d [of c 2] by simp
  have e2: "c div 4 = 2 * (c div 8) + c div 4 mod 2" using s [of "c div 4"] d [of c 4] by simp
  have e3: "c div 8 = 2 * (c div 16) + c div 8 mod 2" using s [of "c div 8"] d [of c 8] by simp
  have e4: "c div 16 = 2 * (c div 32) + c div 16 mod 2" using s [of "c div 16"] d [of c 16] by simp
  have e5: "c div 32 = 2 * (c div 64) + c div 32 mod 2" using s [of "c div 32"] d [of c 32] by simp
  have e6: "c div 64 = 2 * (c div 128) + c div 64 mod 2" using s [of "c div 64"] d [of c 64] by simp
  have e7: "c div 128 = 2 * (c div 256) + c div 128 mod 2" using s [of "c div 128"] d [of c 128] by simp
  have e8: "c div 256 = 0" using assms by simp
  from e0 e1 e2 e3 e4 e5 e6 e7 e8 show ?thesis by linarith
qed

lemma byte_value_int_to_bits: "c < 256 \<Longrightarrow> byte_value (int_to_bits c 8) = c"
  using bit_decomposition [of c]
  by (simp add: int_to_bits_8 byte_value_8 and_one_eq drop_bit_eq_div)

lemma is_bits_left_shift: "is_bits xs \<Longrightarrow> is_bits (left_shift xs n)"
  by (simp add: left_shift_def is_bits_append is_bits_take is_bits_drop)

lemma length_left_shift: "length (left_shift xs n) = length xs"
  by (simp add: left_shift_def)

lemma key_schedule_ok:
  assumes "length kb = 10" and "is_bits kb"
  shows "length (fst (key_schedule kb)) = 8 \<and> is_bits (fst (key_schedule kb))
         \<and> length (snd (key_schedule kb)) = 8 \<and> is_bits (snd (key_schedule kb))"
proof -
  let ?p10 = "permute kb P10"
  have p10: "is_bits ?p10" by (rule is_bits_permute [OF assms(2)]) (simp add: P10_def assms(1))
  have l10: "length ?p10 = 10" by (simp add: length_permute P10_def)
  let ?l1 = "left_shift (take 5 ?p10) 1" and ?r1 = "left_shift (drop 5 ?p10) 1"
  have b1: "is_bits (?l1 @ ?r1)"
    by (simp add: is_bits_append is_bits_left_shift is_bits_take is_bits_drop p10)
  have n1: "length (?l1 @ ?r1) = 10" by (simp add: length_left_shift l10)
  let ?l2 = "left_shift ?l1 2" and ?r2 = "left_shift ?r1 2"
  have b2: "is_bits (?l2 @ ?r2)"
    by (simp add: is_bits_append is_bits_left_shift is_bits_take is_bits_drop p10)
  have n2: "length (?l2 @ ?r2) = 10" by (simp add: length_left_shift l10)
  have k1: "is_bits (permute (?l1 @ ?r1) P8)"
    by (rule is_bits_permute [OF b1]) (simp add: P8_def length_left_shift l10)
  have k2: "is_bits (permute (?l2 @ ?r2) P8)"
    by (rule is_bits_permute [OF b2]) (simp add: P8_def length_left_shift l10)
  show ?thesis
    using k1 k2 by (simp add: key_schedule_def Let_def length_permute P8_def)
qed

lemma generate_keys_ok:
  assumes "valid_key key"
  shows "\<exists>k1 k2. generate_keys key = Inr (k1, k2) \<and> length k1 = 8 \<and> is_bits k1
                  \<and> length k2 = 8 \<and> is_bits k2"
proof (cases key)
  case (KeyStr s)
  with assms have s: "length s = 10" "list_all (\<lambda>c. c = 48 \<or> c = 49) s"
    by (simp_all add: valid_key_def)
  then have "is_bits (map (\<lambda>c. c - 48) s)"
    by (auto simp: is_bits_iff list_all_iff)
  with key_schedule_ok [of "map (\<lambda>c. c - 48) s"] s KeyStr show ?thesis
    by (cases "key_schedule (map (\<lambda>c. c - 48) s)") (simp add: generate_keys_def)
next
  case (KeyList l)
  with assms have "length l = 10" "is_bits l" by (simp_all add: valid_key_def)
  with key_schedule_ok [of l] KeyList show ?thesis
    by (cases "key_schedule l") (simp add: generate_keys_def)
qed

lemma encrypt_blocks_Nil: "encrypt_blocks k1 k2 [] = Inr []"
  by (simp add: encrypt_blocks.simps)

lemma decrypt_blocks_Nil: "decrypt_blocks k1 k2 [] = Inr []"
  by (simp add: decrypt_blocks.simps)

lemma encrypt_blocks_step:
  "length b = 8 \<Longrightarrow> encrypt_blocks k1 k2 (b @ rest) =
     (case encrypt_block b k1 k2 of
        Inl e \<Rightarrow> Inl e
      | Inr c \<Rightarrow> (case encrypt_blocks k1 k2 rest of Inl e \<Rightarrow> Inl e | Inr r \<Rightarrow> Inr (c @ r)))"
proof -
  assume "length b = 8"
  then have "take 8 (b @ rest) = b" and "drop 8 (b @ rest) = rest" and "b @ rest \<noteq> []"
    by auto
  then show ?thesis
    by (subst encrypt_blocks.simps) (simp only: if_False)
qed

lemma decrypt_blocks_step:
  "length b = 8 \<Longrightarrow> decrypt_blocks k1 k2 (b @ rest) =
     (case decrypt_block b k1 k2 of
        Inl e \<Rightarrow> Inl e
      | Inr c \<Rightarrow> (case decrypt_blocks k1 k2 rest of Inl e \<Rightarrow> Inl e | Inr r \<Rightarrow> Inr (c @ r)))"
proof -
  assume l: "length b = 8"
  then have "take 8 (b @ rest) = b" and "drop 8 (b @ rest) = rest" and "b @ rest \<noteq> []"
    by auto
  then show ?thesis
    by (subst decrypt_blocks.simps) (simp only: if_False Let_def l simp_thms if_True)
qed

lemma decrypt_blocks_short: "length bs < 8 \<Longrightarrow> decrypt_blocks k1 k2 bs = Inr []"
  by (subst decrypt_blocks.simps) (simp add: decrypt_blocks_Nil)

lemma blocks_roundtrip:
  assumes "length k1 = 8" and "is_bits k1" and "length k2 = 8" and "is_bits k2"
  shows "length bs = 8 * m \<Longrightarrow> is_bits bs \<Longrightarrow>
         \<exists>cs. encrypt_blocks k1 k2 bs = Inr cs \<and> length cs = 8 * m \<and> is_bits cs
              \<and> decrypt_blocks k1 k2 cs = Inr bs"
proof (induction m arbitrary: bs)
  case 0
  then show ?case by (simp add: encrypt_blocks_Nil decrypt_blocks_Nil is_bits_def)
next
  case (Suc m)
  let ?b = "take 8 bs" and ?rest = "drop 8 bs"
  have lb: "length ?b = 8" using Suc.prems(1) by simp
  have lr: "length ?rest = 8 * m" using Suc.prems(1) by simp
  have bb: "is_bits ?b" and br: "is_bits ?rest"
    using Suc.prems(2) by (simp_all add: is_bits_take is_bits_drop)
  from encrypt_block_roundtrip [OF lb bb assms] obtain c where
    c: "encrypt_block ?b k1 k2 = Inr c" "length c = 8" "is_bits c" "encrypt_block c k2 k1 = Inr ?b"
    by blast
  from Suc.IH [OF lr br] obtain cs where
    cs: "encrypt_blocks k1 k2 ?rest = Inr cs" "length cs = 8 * m" "is_bits cs"
        "decrypt_blocks k1 k2 cs = Inr ?rest"
    by blast
  have "encrypt_blocks k1 k2 (?b @ ?rest) = Inr (c @ cs)"
    by (simp only: encrypt_blocks_step [OF lb] c(1) cs(1) sum.case)
  then have e: "encrypt_blocks k1 k2 bs = Inr (c @ cs)" by simp
  have "decrypt_blocks k1 k2 (c @ cs) = Inr (?b @ ?rest)"
    by (simp only: decrypt_blocks_step [OF c(2)] decrypt_block_def c(4) cs(4) sum.case)
  then have d: "decrypt_blocks k1 k2 (c @ cs) = Inr bs" by simp
  from e d c(2,3) cs(2,3) show ?case by (simp add: is_bits_append)
qed

lemma decrypt_blocks_ok:
  assumes "length k1 = 8" and "is_bits k1" and "length k2 = 8" and "is_bits k2"
  shows "is_bits bs \<Longrightarrow>
         \<exists>ds. decrypt_blocks k1 k2 bs = Inr ds \<and> length ds = 8 * (length bs div 8) \<and> is_bits ds"
proof (induction bs rule: length_induct)
  case (1 bs)
  show ?case
  proof (cases "length bs < 8")
    case True
    then show ?thesis by (simp add: decrypt_blocks_short is_bits_def)
  next
    case False
    let ?b = "take 8 bs" and ?rest = "drop 8 bs"
    have lb: "length ?b = 8" using False by simp
    have bb: "is_bits ?b" and br: "is_bits ?rest"
      using 1(2) by (simp_all add: is_bits_take is_bits_drop)
    from encrypt_block_roundtrip [OF lb bb assms(3,4,1,2)] obtain c where
      c: "encrypt_block ?b k2 k1 = Inr c" "length c = 8" "is_bits c" by blast
    have "length ?rest < length bs" using False by simp
    with 1(1) br obtain ds where
      ds: "decrypt_blocks k1 k2 ?rest = Inr ds" "length ds = 8 * (length ?rest div 8)" "is_bits ds"
      by blast
    have "decrypt_blocks k1 k2 (?b @ ?rest) = Inr (c @ ds)"
      by (simp only: decrypt_blocks_step [OF lb] decrypt_block_def c(1) ds(1) sum.case)
    then have d: "decrypt_blocks k1 k2 bs = Inr (c @ ds)" by simp
    have "length (c @ ds) = 8 * (length bs div 8)"
      using c(2) ds(2) False by (simp add: le_div_geq)
    with d c(3) ds(3) show ?thesis by (simp add: is_bits_append)
  qed
qed

lemma decrypt_blocks_truncate:
  "decrypt_blocks k1 k2 bs = decrypt_blocks k1 k2 (take (8 * (length bs div 8)) bs)"
proof (induction bs rule: length_induct)
  case (1 bs)
  show ?case
  proof (cases "length bs < 8")
    case True
    then show ?thesis by (simp add: decrypt_blocks_short decrypt_blocks_Nil)
  next
    case False
    let ?b = "take 8 bs" and ?rest = "drop 8 bs"
    let ?n = "8 * (length bs div 8)"
    have lb: "length ?b = 8" using False by simp
    have n: "?n = 8 + 8 * (length ?rest div 8)" using False by (simp add: le_div_geq)
    have tk: "take ?n bs = ?b @ take (8 * (length ?rest div 8)) ?rest"
    proof -
      have "take ?n (?b @ ?rest) = ?b @ take (?n - 8) ?rest"
        using lb n by (simp only: take_append) simp
      with n show ?thesis by simp
    qed
    have "length ?rest < length bs" using False by simp
    with 1 have ih: "decrypt_blocks k1 k2 ?rest
                       = decrypt_blocks k1 k2 (take (8 * (length ?rest div 8)) ?rest)"
      by blast
    have "decrypt_blocks k1 k2 (?b @ ?rest)
            = decrypt_blocks k1 k2 (?b @ take (8 * (length ?rest div 8)) ?rest)"
      by (simp only: decrypt_blocks_step [OF lb] ih)
    then show ?thesis by (simp only: tk append_take_drop_id)
  qed
qed

lemma length_string_to_bits: "length (string_to_bits t) = 8 * length t"
  by (induction t) (simp_all add: string_to_bits_def length_int_to_bits)

lemma is_bits_string_to_bits: "is_bits (string_to_bits t)"
proof (induction t)
  case Nil
  show ?case by (simp add: string_to_bits_def is_bits_def)
next
  case (Cons c cs)
  then show ?case by (simp add: string_to_bits_def is_bits_append is_bits_int_to_bits)
qed

lemma pad_bits_aligned: "length bs mod 8 = 0 \<Longrightarrow> pad_bits bs = bs"
  by (subst pad_bits.simps) simp

lemma bits_to_string_Nil: "bits_to_string [] = Inr []"
  by (simp add: bits_to_string.simps)

lemma bits_to_string_short: "length bs < 8 \<Longrightarrow> bits_to_string bs = Inr []"
  by (subst bits_to_string.simps) (simp add: bits_to_string_Nil)

lemma bits_to_string_step:
  assumes "length b = 8"
  shows "bits_to_string (b @ rest) =
           (if byte_value b < 0x110000
            then (case bits_to_string rest of Inl e \<Rightarrow> Inl e | Inr r \<Rightarrow> Inr (byte_value b # r))
            else Inl (ChrOutOfRange (byte_value b)))"
proof -
  from assms have "take 8 (b @ rest) = b" and "drop 8 (b @ rest) = rest" and "b @ rest \<noteq> []"
    by auto
  then show ?thesis
    by (subst bits_to_string.simps) (simp only: if_False Let_def assms simp_thms if_True)
qed

lemma bits_to_string_string_to_bits:
  "\<forall>c\<in>set t. c < 256 \<Longrightarrow> bits_to_string (string_to_bits t) = Inr t"
proof (induction t)
  case Nil
  show ?case by (simp add: string_to_bits_def bits_to_string_Nil)
next
  case (Cons c cs)
  then have c: "c < 256" and ih: "bits_to_string (string_to_bits cs) = Inr cs" by simp_all
  have "string_to_bits (c # cs) = int_to_bits c 8 @ string_to_bits cs"
    by (simp add: string_to_bits_def)
  then show ?case
    using c ih
    by (simp add: bits_to_string_step length_int_to_bits byte_value_int_to_bits)
qed

lemma byte_value_bound:
  assumes "length b = 8" and "is_bits b"
  shows "byte_value b < 256"
proof -
  from list8 [OF assms(1)] obtain a0 a1 a2 a3 a4 a5 a6 a7 where
    b: "b = [a0, a1, a2, a3, a4, a5, a6, a7]" by blast
  with assms(2) have "a0 \<le> 1" "a1 \<le> 1" "a2 \<le> 1" "a3 \<le> 1" "a4 \<le> 1" "a5 \<le> 1" "a6 \<le> 1" "a7 \<le> 1"
    by (auto simp: is_bits_iff)
  then show ?thesis by (simp add: b byte_value_8)
qed

lemma bits_to_string_ok:
  "is_bits bs \<Longrightarrow> \<exists>t. bits_to_string bs = Inr t \<and> length t = length bs div 8"
proof (induction bs rule: length_induct)
  case (1 bs)
  show ?case
  proof (cases "length bs < 8")
    case True
    then show ?thesis by (simp add: bits_to_string_short)
  next
    case False
    let ?b = "take 8 bs" and ?rest = "drop 8 bs"
    have lb: "length ?b = 8" using False by simp
    have bb: "is_bits ?b" and br: "is_bits ?rest"
      using 1(2) by (simp_all add: is_bits_take is_bits_drop)
    have v: "byte_value ?b < 0x110000" using byte_value_bound [OF lb bb] by simp
    have "length ?rest < length bs" using False by simp
    with 1(1) br obtain t where t: "bits_to_string ?rest = Inr t" "length t = length ?rest div 8"
      by blast
    have "bits_to_string (?b @ ?rest) = Inr (byte_value ?b # t)"
      by (simp only: bits_to_string_step [OF lb] v if_True t(1) sum.case)
    then have "bits_to_string bs = Inr (byte_value ?b # t)" by simp
    moreover have "length (byte_value ?b # t) = length bs div 8"
      using t(2) False by (simp add: le_div_geq)
    ultimately show ?thesis by blast
  qed
qed

lemma str_nat_bit: "b = 0 \<or> b = 1 \<Longrightarrow> str_nat b = [48 + b]"
  by (subst str_nat.simps) auto

lemma concat_str_nat_bits: "is_bits bs \<Longrightarrow> concat (map str_nat bs) = map (\<lambda>b. 48 + b) bs"
  by (induction bs) (simp_all add: is_bits_def str_nat_bit)

lemma ints_of_str_digits:
  "binary_digits L \<Longrightarrow> is_bits bs \<Longrightarrow> ints_of_str L (map (\<lambda>b. 48 + b) bs) = Inr bs"
  by (induction bs) (auto simp: is_bits_def binary_digits_def)

lemma ints_of_str_binary:
  "binary_digits L \<Longrightarrow> list_all (\<lambda>c. c = 48 \<or> c = 49) s \<Longrightarrow>
   ints_of_str L s = Inr (map (\<lambda>c. c - 48) s)"
  by (induction s) (auto simp: binary_digits_def)

lemma sdes_roundtrip_core:
  assumes "valid_key key" and "binary_digits L" and "\<forall>c\<in>set t. c < 256"
  shows "\<exists>ct. encrypt_text t key = Inr ct \<and> length ct = 8 * length t
              \<and> decrypt_text L (BinStr ct) key = Inr t"
proof -
  from generate_keys_ok [OF assms(1)] obtain k1 k2 where
    k: "generate_keys key = Inr (k1, k2)" "length k1 = 8" "is_bits k1" "length k2 = 8" "is_bits k2"
    by blast
  let ?bs = "string_to_bits t"
  have pad: "pad_bits ?bs = ?bs" by (rule pad_bits_aligned) (simp add: length_string_to_bits)
  from blocks_roundtrip [OF k(2-5), of ?bs "length t"] obtain cs where
    cs: "encrypt_blocks k1 k2 ?bs = Inr cs" "length cs = 8 * length t" "is_bits cs"
        "decrypt_blocks k1 k2 cs = Inr ?bs"
    by (auto simp: length_string_to_bits is_bits_string_to_bits)
  let ?ct = "map (\<lambda>b. 48 + b) cs"
  have e: "encrypt_text t key = Inr ?ct"
    by (simp add: encrypt_text_def sdes_encrypt_def k(1) pad cs(1) concat_str_nat_bits [OF cs(3)])
  have "decrypt_text L (BinStr ?ct) key = bits_to_string ?bs"
    by (simp add: decrypt_text_def ints_of_str_digits [OF assms(2) cs(3)] sdes_decrypt_def k(1) cs(4))
  then have "decrypt_text L (BinStr ?ct) key = Inr t"
    by (simp add: bits_to_string_string_to_bits [OF assms(3)])
  with e cs(2) show ?thesis by simp
qed

text \<open>
  Claim C4, amended. For every valid 10-bit key and every text whose characters are all
  below code point 256, \<open>encrypt_text\<close> returns a string of 8 binary digits per
  character and \<open>decrypt_text\<close> of that string with the same key is the text.
\<close>

theorem sdes_text_roundtrip:
  assumes "valid_key key" and "binary_digits L" and "\<forall>c\<in>set t. c < 256"
  shows "\<exists>ct. encrypt_text t key = Inr ct \<and> length ct = 8 * length t
              \<and> decrypt_text L (BinStr ct) key = Inr t"
  using assms by (rule sdes_roundtrip_core)

text \<open>
  Claim C10. Decryption works on the complete 8-bit blocks only: for a list of bits, and
  for a string of binary digits, \<open>decrypt_text\<close> gives what it gives on the longest
  prefix whose length is a multiple of 8; with a valid key and a list of bits it returns
  one character per complete block.
\<close>

theorem decrypt_text_complete_blocks:
  "decrypt_text L (BinList bs) key
     = decrypt_text L (BinList (take (8 * (length bs div 8)) bs)) key
   \<and> (binary_digits L \<and> list_all (\<lambda>c. c = 48 \<or> c = 49) s \<longrightarrow>
        decrypt_text L (BinStr s) key
          = decrypt_text L (BinStr (take (8 * (length s div 8)) s)) key)
   \<and> (valid_key key \<and> is_bits bs \<longrightarrow>
        (\<exists>t. decrypt_text L (BinList bs) key = Inr t \<and> length t = length bs div 8))"
proof (intro conjI impI)
  have tr: "sdes_decrypt xs key = sdes_decrypt (take (8 * (length xs div 8)) xs) key" for xs
    using decrypt_blocks_truncate by (auto simp: sdes_decrypt_def split: sum.splits)
  show "decrypt_text L (BinList bs) key
          = decrypt_text L (BinList (take (8 * (length bs div 8)) bs)) key"
    using tr [of bs] by (simp add: decrypt_text_def)
  {
    assume a: "binary_digits L \<and> list_all (\<lambda>c. c = 48 \<or> c = 49) s"
    let ?n = "8 * (length s div 8)"
    have "list_all (\<lambda>c. c = 48 \<or> c = 49) (take ?n s)"
      using a by (auto simp: list_all_iff dest: in_set_takeD)
    with a have i1: "ints_of_str L s = Inr (map (\<lambda>c. c - 48) s)"
      and i2: "ints_of_str L (take ?n s) = Inr (map (\<lambda>c. c - 48) (take ?n s))"
      by (simp_all add: ints_of_str_binary)
    show "decrypt_text L (BinStr s) key = decrypt_text L (BinStr (take ?n s)) key"
      using tr [of "map (\<lambda>c. c - 48) s"] by (simp add: decrypt_text_def i1 i2 take_map)
  }
  {
    assume a: "valid_key key \<and> is_bits bs"
    from generate_keys_ok [of key] a obtain k1 k2 where
      k: "generate_keys key = Inr (k1, k2)" "length k1 = 8" "is_bits k1" "length k2 = 8" "is_bits k2"
      by blast
    from decrypt_blocks_ok [OF k(2-5), of bs] a obtain ds where
      ds: "decrypt_blocks k1 k2 bs = Inr ds" "length ds = 8 * (length bs div 8)" "is_bits ds"
      by blast
    from bits_to_string_ok [OF ds(3)] obtain t where
      t: "bits_to_string ds = Inr t" "length t = length ds div 8" by blast
    show "\<exists>t. decrypt_text L (BinList bs) key = Inr t \<and> length t = length bs div 8"
      using t ds(2) by (simp add: decrypt_text_def sdes_decrypt_def k(1) ds(1))
  }
qed




theorem sdes_text_roundtrip_witness:
  "\<exists>ct. encrypt_text (py ''A'') example_key = Inr ct \<and> length ct = 8
        \<and> decrypt_text pylib (BinStr ct) example_key = Inr (py ''A'')"
proof -
  have h1: "valid_key example_key" by code_simp
  have h2: "binary_digits pylib" by code_simp
  have h3: "\<forall>c\<in>set (py ''A''). c < 256" by (simp add: py_def)
  from sdes_text_roundtrip [OF h1 h2 h3] show ?thesis by (simp add: py_def)
qed

text \<open>
  Claim C4 as stated fails: the one-character text with code point 256 is encrypted
  from the low 8 bits of its code point, all 0, and decrypts to the character 0.
\<close>

theorem sdes_text_roundtrip_counterexample:
  "encrypt_text [256] example_key = Inr (py ''11001110'')
   \<and> decrypt_text pylib (BinStr (py ''11001110'')) example_key = Inr [0]"
proof -
  have e: "encrypt_text [256] example_key = Inr (py ''11001110'')" by code_simp
  have e0: "encrypt_text [0] example_key = Inr (py ''11001110'')" by code_simp
  have h1: "valid_key example_key" by code_simp
  have h2: "binary_digits pylib" by code_simp
  have h3: "\<forall>c\<in>set [0::nat]. c < 256" by simp
  from sdes_roundtrip_core [OF h1 h2 h3] e0
  have "decrypt_text pylib (BinStr (py ''11001110'')) example_key = Inr [0]" by auto
  with e show ?thesis by simp
qed

theorem decrypt_text_complete_blocks_witness:
  "decrypt_text pylib (BinStr (py ''1100111010'')) example_key
     = decrypt_text pylib (BinStr (py ''11001110'')) example_key
   \<and> (\<exists>t. decrypt_text pylib (BinList [1, 1, 0, 0, 1, 1, 1, 0, 1, 0]) example_key = Inr t
          \<and> length t = 1)"
proof -
  have h1: "binary_digits pylib \<and> list_all (\<lambda>c. c = 48 \<or> c = 49) (py ''1100111010'')" by code_simp
  have h2: "valid_key example_key \<and> is_bits [1, 1, 0, 0, 1, 1, 1, 0, 1, 0]" by code_simp
  have v1: "take (8 * (length (py ''1100111010'') div 8)) (py ''1100111010'') = py ''11001110''"
    by code_simp
  note th = decrypt_text_complete_blocks [of pylib "[1, 1, 0, 0, 1, 1, 1, 0, 1, 0]" example_key
                "py ''1100111010''"]
  from th [THEN conjunct2, THEN conjunct1] h1 v1
  have a: "decrypt_text pylib (BinStr (py ''1100111010'')) example_key
             = decrypt_text pylib (BinStr (py ''11001110'')) example_key" by simp
  from th [THEN conjunct2, THEN conjunct2] h2
  have b: "\<exists>t. decrypt_text pylib (BinList [1, 1, 0, 0, 1, 1, 1, 0, 1, 0]) example_key = Inr t
               \<and> length t = 1" by simp
  from a b show ?thesis by blast
qed

end
